theory Spec2Isabelle
  imports Complex_Main "HOL-Library.Multiset"
begin

section \<open>Failures of the JavaScript runtime\<close>

text \<open>
  Reading a property of \<^verbatim>\<open>null\<close> or \<^verbatim>\<open>undefined\<close> throws a TypeError. Every place
  where the source can do so is a branch of the model that returns \<open>Inl TypeError\<close>.
  \<open>Unmodelled\<close> marks the two places where the source would go on with \<^verbatim>\<open>null\<close> or
  \<^verbatim>\<open>undefined\<close> stored inside an array, which the lists of the model cannot hold.
\<close>

datatype error = TypeError | Unmodelled

section \<open>AVL tree (src/9.1-avl-tree.js)\<close>

text \<open>
  An \<^verbatim>\<open>AVLNode\<close> object has the fields value, left, right and height; a missing child
  is \<^verbatim>\<open>null\<close>. Values are JavaScript numbers, used here as integers. The tree object
  holds nothing but its root, so a tree is modelled by its root node.
\<close>

datatype AVLNode = Null | AVLNode int AVLNode AVLNode int

text \<open>\<^verbatim>\<open>height(node)\<close>: the stored height, 0 for null.\<close>

fun height :: "AVLNode \<Rightarrow> int" where
  "height Null = 0"
| "height (AVLNode v l r h) = h"

text \<open>\<^verbatim>\<open>balanceFactor(node)\<close>; reading \<^verbatim>\<open>node.left\<close> of null throws.\<close>

fun balanceFactor :: "AVLNode \<Rightarrow> error + int" where
  "balanceFactor Null = Inl TypeError"
| "balanceFactor (AVLNode v l r h) = Inr (height l - height r)"

text \<open>\<^verbatim>\<open>updateHeight(node)\<close> overwrites the height field.\<close>

fun updateHeight :: "AVLNode \<Rightarrow> error + AVLNode" where
  "updateHeight Null = Inl TypeError"
| "updateHeight (AVLNode v l r h) = Inr (AVLNode v l r (1 + max (height l) (height r)))"

text \<open>
  \<^verbatim>\<open>rotateRight(y)\<close>: \<^verbatim>\<open>x = y.left; T2 = x.right; x.right = y; y.left = T2\<close>, then the
  heights of y and of x are recomputed, in that order. It throws when y or y.left is null.
\<close>

fun AVLTree_rotateRight :: "AVLNode \<Rightarrow> error + AVLNode" where
  "AVLTree_rotateRight Null = Inl TypeError"
| "AVLTree_rotateRight (AVLNode yv Null yr yh) = Inl TypeError"
| "AVLTree_rotateRight (AVLNode yv (AVLNode xv xl T2 xh) yr yh) =
     (case updateHeight (AVLNode yv T2 yr yh) of
        Inl e \<Rightarrow> Inl e
      | Inr y' \<Rightarrow> updateHeight (AVLNode xv xl y' xh))"

text \<open>\<^verbatim>\<open>rotateLeft(x)\<close>, the mirror image: heights of x, then of y.\<close>

fun AVLTree_rotateLeft :: "AVLNode \<Rightarrow> error + AVLNode" where
  "AVLTree_rotateLeft Null = Inl TypeError"
| "AVLTree_rotateLeft (AVLNode xv xl Null xh) = Inl TypeError"
| "AVLTree_rotateLeft (AVLNode xv xl (AVLNode yv T2 yr yh) xh) =
     (case updateHeight (AVLNode xv xl T2 xh) of
        Inl e \<Rightarrow> Inl e
      | Inr x' \<Rightarrow> updateHeight (AVLNode yv x' yr yh))"

text \<open>
  The second half of \<^verbatim>\<open>_insert\<close>, run after the recursive call has replaced a child of
  \<open>node\<close>: \<^verbatim>\<open>updateHeight(node)\<close>, \<^verbatim>\<open>balanceFactor(node)\<close>, and the rotations. The case is chosen by
  comparing the inserted value with the value of the child (\<^verbatim>\<open>node.left.value\<close> throws
  on a null child).
\<close>

definition rebalance :: "AVLNode \<Rightarrow> int \<Rightarrow> error + AVLNode" where
  "rebalance node x =
     (case updateHeight node of
        Inl e \<Rightarrow> Inl e
      | Inr node1 \<Rightarrow>
     (case balanceFactor node1 of
        Inl e \<Rightarrow> Inl e
      | Inr balance \<Rightarrow>
     (case node1 of
        Null \<Rightarrow> Inl TypeError
      | AVLNode v l r h \<Rightarrow>
          if balance > 1 then
            (case l of
               Null \<Rightarrow> Inl TypeError
             | AVLNode lv ll lr lh \<Rightarrow>
                 if x < lv then AVLTree_rotateRight node1
                 else (case AVLTree_rotateLeft l of
                         Inl e \<Rightarrow> Inl e
                       | Inr l' \<Rightarrow> AVLTree_rotateRight (AVLNode v l' r h)))
          else if balance < - 1 then
            (case r of
               Null \<Rightarrow> Inl TypeError
             | AVLNode rv rl rr rh \<Rightarrow>
                 if x > rv then AVLTree_rotateLeft node1
                 else (case AVLTree_rotateRight r of
                         Inl e \<Rightarrow> Inl e
                       | Inr r' \<Rightarrow> AVLTree_rotateLeft (AVLNode v l r' h)))
          else Inr node1)))"

text \<open>\<^verbatim>\<open>_insert(node, value)\<close>: a new node has height 1; an equal value returns the node as it is.\<close>

fun AVLTree_insert' :: "AVLNode \<Rightarrow> int \<Rightarrow> error + AVLNode" where
  "AVLTree_insert' Null x = Inr (AVLNode x Null Null 1)"
| "AVLTree_insert' (AVLNode v l r h) x =
     (if x < v then
        (case AVLTree_insert' l x of
           Inl e \<Rightarrow> Inl e
         | Inr l' \<Rightarrow> rebalance (AVLNode v l' r h) x)
      else if x > v then
        (case AVLTree_insert' r x of
           Inl e \<Rightarrow> Inl e
         | Inr r' \<Rightarrow> rebalance (AVLNode v l r' h) x)
      else Inr (AVLNode v l r h))"

text \<open>\<^verbatim>\<open>insert(value)\<close>: \<^verbatim>\<open>this.root = this._insert(this.root, value)\<close>.\<close>

definition AVLTree_insert :: "AVLNode \<Rightarrow> int \<Rightarrow> error + AVLNode" where
  "AVLTree_insert rt x = AVLTree_insert' rt x"

text \<open>A sequence of \<^verbatim>\<open>insert\<close> calls; an exception ends it.\<close>

fun AVLTree_inserts :: "AVLNode \<Rightarrow> int list \<Rightarrow> error + AVLNode" where
  "AVLTree_inserts rt [] = Inr rt"
| "AVLTree_inserts rt (x # xs) =
     (case AVLTree_insert rt x of
        Inl e \<Rightarrow> Inl e
      | Inr rt' \<Rightarrow> AVLTree_inserts rt' xs)"

text \<open>\<^verbatim>\<open>inorderTraversal(node)\<close> prints the values in the order left, node, right.\<close>

fun inorderTraversal :: "AVLNode \<Rightarrow> int list" where
  "inorderTraversal Null = []"
| "inorderTraversal (AVLNode v l r h) = inorderTraversal l @ v # inorderTraversal r"

text \<open>
  \<^verbatim>\<open>kthSmallest(k)\<close> threads the object \<^verbatim>\<open>{count, value}\<close> through an in-order walk.
  The \<^verbatim>\<open>return\<close> after a hit leaves only the current call: the callers go on counting.
  The walk reads the nodes and writes only the result object.
\<close>

record kth_result =
  count :: int
  found :: "int option"

fun kthSmallestHelper :: "AVLNode \<Rightarrow> int \<Rightarrow> kth_result \<Rightarrow> kth_result" where
  "kthSmallestHelper Null k res = res"
| "kthSmallestHelper (AVLNode v l r h) k res =
     (let res1 = kthSmallestHelper l k res;
          res2 = res1\<lparr>count := count res1 + 1\<rparr>
      in if count res2 = k then res2\<lparr>found := Some v\<rparr>
         else kthSmallestHelper r k res2)"

definition kthSmallest :: "AVLNode \<Rightarrow> int \<Rightarrow> int option" where
  "kthSmallest rt k = found (kthSmallestHelper rt k \<lparr>count = 0, found = None\<rparr>)"


section \<open>Treap (src/19-treap.js)\<close>

text \<open>
  A \<^verbatim>\<open>TreapNode\<close> has the fields value, priority, left and right. The priority is drawn
  by \<^verbatim>\<open>Math.random()\<close> in the constructor; only its order is ever used. The draw is an
  argument of the model: each call of \<^verbatim>\<open>insert\<close> builds exactly one node.
\<close>

datatype TreapNode = TNull | TreapNode int real TreapNode TreapNode

text \<open>\<^verbatim>\<open>rotateRight(y)\<close>: \<^verbatim>\<open>x = y.left; y.left = x.right; x.right = y; return x\<close>.\<close>

fun Treap_rotateRight :: "TreapNode \<Rightarrow> error + TreapNode" where
  "Treap_rotateRight TNull = Inl TypeError"
| "Treap_rotateRight (TreapNode yv yp TNull yr) = Inl TypeError"
| "Treap_rotateRight (TreapNode yv yp (TreapNode xv xp xl xr) yr) =
     Inr (TreapNode xv xp xl (TreapNode yv yp xr yr))"

text \<open>\<^verbatim>\<open>rotateLeft(x)\<close>: \<^verbatim>\<open>y = x.right; x.right = y.left; y.left = x; return y\<close>.\<close>

fun Treap_rotateLeft :: "TreapNode \<Rightarrow> error + TreapNode" where
  "Treap_rotateLeft TNull = Inl TypeError"
| "Treap_rotateLeft (TreapNode xv xp xl TNull) = Inl TypeError"
| "Treap_rotateLeft (TreapNode xv xp xl (TreapNode yv yp yl yr)) =
     Inr (TreapNode yv yp (TreapNode xv xp xl yl) yr)"

text \<open>\<^verbatim>\<open>node.priority\<close>, which throws on null.\<close>

fun priority :: "TreapNode \<Rightarrow> error + real" where
  "priority TNull = Inl TypeError"
| "priority (TreapNode v p l r) = Inr p"

text \<open>
  \<^verbatim>\<open>_insert(node, value)\<close>, with the priority \<open>p\<close> of the node it creates. There are two
  branches only: a value that is not smaller goes to the right, an equal one included.
\<close>

fun Treap_insert' :: "TreapNode \<Rightarrow> int \<Rightarrow> real \<Rightarrow> error + TreapNode" where
  "Treap_insert' TNull x p = Inr (TreapNode x p TNull TNull)"
| "Treap_insert' (TreapNode v q l r) x p =
     (if x < v then
        (case Treap_insert' l x p of
           Inl e \<Rightarrow> Inl e
         | Inr l' \<Rightarrow>
             (case priority l' of
                Inl e \<Rightarrow> Inl e
              | Inr lp \<Rightarrow>
                  if lp > q then Treap_rotateRight (TreapNode v q l' r)
                  else Inr (TreapNode v q l' r)))
      else
        (case Treap_insert' r x p of
           Inl e \<Rightarrow> Inl e
         | Inr r' \<Rightarrow>
             (case priority r' of
                Inl e \<Rightarrow> Inl e
              | Inr rp \<Rightarrow>
                  if rp > q then Treap_rotateLeft (TreapNode v q l r')
                  else Inr (TreapNode v q l r'))))"

definition Treap_insert :: "TreapNode \<Rightarrow> int \<Rightarrow> real \<Rightarrow> error + TreapNode" where
  "Treap_insert rt x p = Treap_insert' rt x p"

text \<open>A sequence of \<^verbatim>\<open>insert\<close> calls, each value with the priority drawn for it.\<close>

fun Treap_inserts :: "TreapNode \<Rightarrow> (int \<times> real) list \<Rightarrow> error + TreapNode" where
  "Treap_inserts rt [] = Inr rt"
| "Treap_inserts rt ((x, p) # xs) =
     (case Treap_insert rt x p of
        Inl e \<Rightarrow> Inl e
      | Inr rt' \<Rightarrow> Treap_inserts rt' xs)"

text \<open>
  \<^verbatim>\<open>_delete(node, value)\<close>. With two children the node is rotated down
  (\<^verbatim>\<open>rotateRight\<close> when the left priority is greater, else \<^verbatim>\<open>rotateLeft\<close>) and the
  deletion goes on in the subtree that now holds it; the rotation is written out here,
  both children being nodes.
\<close>

fun Treap_delete' :: "TreapNode \<Rightarrow> int \<Rightarrow> TreapNode" where
  "Treap_delete' TNull x = TNull"
| "Treap_delete' (TreapNode v q l r) x =
     (if x < v then TreapNode v q (Treap_delete' l x) r
      else if x > v then TreapNode v q l (Treap_delete' r x)
      else
        (case (l, r) of
           (TNull, TNull) \<Rightarrow> TNull
         | (TNull, _) \<Rightarrow> r
         | (_, TNull) \<Rightarrow> l
         | (TreapNode lv lp ll lr, TreapNode rv rp rl rr) \<Rightarrow>
             if lp > rp
             then TreapNode lv lp ll (Treap_delete' (TreapNode v q lr r) x)
             else TreapNode rv rp (Treap_delete' (TreapNode v q l rl) x) rr))"

definition Treap_delete :: "TreapNode \<Rightarrow> int \<Rightarrow> TreapNode" where
  "Treap_delete rt x = Treap_delete' rt x"

text \<open>\<^verbatim>\<open>_search(node, value)\<close>.\<close>

fun Treap_search' :: "TreapNode \<Rightarrow> int \<Rightarrow> bool" where
  "Treap_search' TNull x = False"
| "Treap_search' (TreapNode v q l r) x =
     (if v = x then True
      else if x < v then Treap_search' l x
      else Treap_search' r x)"

definition Treap_search :: "TreapNode \<Rightarrow> int \<Rightarrow> bool" where
  "Treap_search rt x = Treap_search' rt x"

text \<open>The values in the order \<^verbatim>\<open>inorderTraversal\<close> prints them.\<close>

fun Treap_inorderTraversal :: "TreapNode \<Rightarrow> int list" where
  "Treap_inorderTraversal TNull = []"
| "Treap_inorderTraversal (TreapNode v q l r) =
     Treap_inorderTraversal l @ v # Treap_inorderTraversal r"


section \<open>B+tree (src/21-b+tree.js)\<close>

text \<open>
  Nodes are objects that are shared: a leaf is referred to by its parent's
  \<^verbatim>\<open>childPointers\<close> and by the \<^verbatim>\<open>nextLeaf\<close> of the leaf before it. The model keeps them
  in a store, a list of nodes in which the address of a node is its index;
  \<^verbatim>\<open>new BPlusTreeNode\<close> appends to it. An entry of \<^verbatim>\<open>childPointers\<close> is a node
  reference in an internal node and the stored data in a leaf. Keys are numbers.
\<close>

datatype 'v cell = Ref nat | Data 'v

record 'v BPlusTreeNode =
  keys :: "int list"
  childPointers :: "'v cell list"
  isLeaf :: bool
  nextLeaf :: "nat option"

text \<open>
  The tree object: the store, the root (\<open>None\<close> is \<^verbatim>\<open>null\<close>), \<^verbatim>\<open>minimumDegree\<close> and
  \<^verbatim>\<open>maxKeysPerNode\<close>.
\<close>

record 'v BPlusTree =
  store :: "'v BPlusTreeNode list"
  rootNode :: "nat option"
  minimumDegree :: nat
  maxKeysPerNode :: int

text \<open>The constructor \<^verbatim>\<open>new BPlusTree(minimumDegree)\<close>.\<close>

definition BPlusTree_new :: "nat \<Rightarrow> 'v BPlusTree" where
  "BPlusTree_new t =
     \<lparr>store = [], rootNode = None, minimumDegree = t, maxKeysPerNode = 2 * int t - 1\<rparr>"

text \<open>The constructor \<^verbatim>\<open>new BPlusTreeNode(isLeaf)\<close>.\<close>

definition newNode :: "bool \<Rightarrow> 'v BPlusTreeNode" where
  "newNode leaf = \<lparr>keys = [], childPointers = [], isLeaf = leaf, nextLeaf = None\<rparr>"

text \<open>
  Following a reference. An address outside the store stands for no object; the model
  treats it as \<^verbatim>\<open>undefined\<close>, whose properties cannot be read.
\<close>

definition node_at :: "'v BPlusTree \<Rightarrow> nat \<Rightarrow> error + 'v BPlusTreeNode" where
  "node_at T a = (if a < length (store T) then Inr (store T ! a) else Inl TypeError)"

text \<open>
  \<^verbatim>\<open>childPointers[i]\<close> used as a node. Past the end of the array it is \<^verbatim>\<open>undefined\<close>,
  and reading \<^verbatim>\<open>.keys\<close> or \<^verbatim>\<open>.isLeaf\<close> of it throws; stored data (a string or a number)
  has no \<^verbatim>\<open>keys\<close>, so reading \<^verbatim>\<open>.keys.length\<close> or \<^verbatim>\<open>.keys[i]\<close> of it throws as well.
\<close>

definition child_ref :: "'v cell list \<Rightarrow> nat \<Rightarrow> error + nat" where
  "child_ref cps i =
     (if i < length cps then (case cps ! i of Ref a \<Rightarrow> Inr a | Data v \<Rightarrow> Inl TypeError)
      else Inl TypeError)"

text \<open>Writing fields of the object at an address.\<close>

definition update_node ::
  "'v BPlusTree \<Rightarrow> nat \<Rightarrow> ('v BPlusTreeNode \<Rightarrow> 'v BPlusTreeNode) \<Rightarrow> 'v BPlusTree" where
  "update_node T a f = T\<lparr>store := (store T)[a := f (store T ! a)]\<rparr>"

text \<open>\<^verbatim>\<open>arr.splice(i, 0, x)\<close> inserts \<open>x\<close> before index \<open>i\<close> (at the end when \<open>i\<close> is past it).\<close>

definition splice_in :: "nat \<Rightarrow> 'a \<Rightarrow> 'a list \<Rightarrow> 'a list" where
  "splice_in i x xs = take i xs @ x # drop i xs"

text \<open>
  \<^verbatim>\<open>while (keyIndex < keys.length && key > keys[keyIndex]) keyIndex++\<close>, from 0: the
  number of leading keys that are smaller than \<open>key\<close>.
\<close>

definition scan_up :: "int \<Rightarrow> int list \<Rightarrow> nat" where
  "scan_up key ks = length (takeWhile (\<lambda>k. key > k) ks)"

text \<open>
  \<^verbatim>\<open>keyIndex = keys.length - 1; while (keyIndex >= 0 && key < keys[keyIndex]) keyIndex--\<close>
  followed by \<^verbatim>\<open>keyIndex++\<close>: what is left after dropping the trailing keys greater than \<open>key\<close>.
\<close>

definition scan_down :: "int \<Rightarrow> int list \<Rightarrow> nat" where
  "scan_down key ks = length ks - length (takeWhile (\<lambda>k. key < k) (rev ks))"

text \<open>
  A call that changes the tree either returns, leaving the tree \<open>T'\<close> (\<open>Inr T'\<close>), or
  throws, leaving the tree as it is at the throw (\<open>Inl (e, T')\<close>): what was written
  before the exception stays written.
\<close>

type_synonym 'v outcome = "(error \<times> 'v BPlusTree) + 'v BPlusTree"

definition tree_of :: "'v outcome \<Rightarrow> 'v BPlusTree" where
  "tree_of res = (case res of Inl eT \<Rightarrow> snd eT | Inr T \<Rightarrow> T)"

text \<open>
  \<^verbatim>\<open>_splitChild(parentNode, childIndex)\<close>, statement by statement; \<open>n\<close> is the address of
  \<^verbatim>\<open>newNode\<close>. \<^verbatim>\<open>keys.splice(t - 1)\<close> leaves the first \<open>t - 1\<close> keys in the child and moves the
  rest, the key at \<open>t - 1\<close> included, to the new node, for a leaf and for an internal node
  alike; the children of an internal node are cut at \<open>t\<close>. With fewer than \<open>t\<close> keys in the
  child the source would store \<^verbatim>\<open>undefined\<close> as a key of the parent: \<open>Unmodelled\<close>.
  A missing child (\<^verbatim>\<open>undefined\<close>) throws at \<^verbatim>\<open>childNode.isLeaf\<close>, before anything is
  written. Stored data in the place of the child (a string or a number) has no
  \<^verbatim>\<open>isLeaf\<close>, so the new node is built with the default \<^verbatim>\<open>isLeaf = false\<close> and linked
  into the parent before \<^verbatim>\<open>childNode.keys[t - 1]\<close> throws.
\<close>

definition BPlusTree_splitChild :: "'v BPlusTree \<Rightarrow> nat \<Rightarrow> nat \<Rightarrow> 'v outcome" where
  "BPlusTree_splitChild T p childIndex =
     (case node_at T p of
        Inl e \<Rightarrow> Inl (e, T)
      | Inr parentNode \<Rightarrow>
     (case child_ref (childPointers parentNode) childIndex of
        Inl e \<Rightarrow>
          if childIndex < length (childPointers parentNode) then
            let n = length (store T);
                T1 = T\<lparr>store := store T @ [newNode False]\<rparr>
            in Inl (e, update_node T1 p
                 (\<lambda>nd. nd\<lparr>childPointers := splice_in (childIndex + 1) (Ref n) (childPointers nd)\<rparr>))
          else Inl (e, T)
      | Inr c \<Rightarrow>
     (case node_at T c of
        Inl e \<Rightarrow> Inl (e, T)
      | Inr childNode \<Rightarrow>
          let t = minimumDegree T;
              n = length (store T);
              T1 = T\<lparr>store := store T @ [newNode (isLeaf childNode)]\<rparr>;
              T2 = update_node T1 p
                     (\<lambda>nd. nd\<lparr>childPointers := splice_in (childIndex + 1) (Ref n) (childPointers nd)\<rparr>)
          in if \<not> (1 \<le> t \<and> t - 1 < length (keys (store T2 ! c))) then Inl (Unmodelled, T2)
             else
               let T3 = update_node T2 p
                          (\<lambda>nd. nd\<lparr>keys := splice_in childIndex (keys (store T2 ! c) ! (t - 1)) (keys nd)\<rparr>);
                   moved = drop (t - 1) (keys (store T3 ! c));
                   T4 = update_node T3 c (\<lambda>nd. nd\<lparr>keys := take (t - 1) (keys nd)\<rparr>);
                   T5 = update_node T4 n (\<lambda>nd. nd\<lparr>keys := moved\<rparr>)
               in if \<not> isLeaf (store T5 ! c) then
                    let movedc = drop t (childPointers (store T5 ! c));
                        T6 = update_node T5 c (\<lambda>nd. nd\<lparr>childPointers := take t (childPointers nd)\<rparr>)
                    in Inr (update_node T6 n (\<lambda>nd. nd\<lparr>childPointers := movedc\<rparr>))
                  else
                    let movedc = drop (t - 1) (childPointers (store T5 ! c));
                        T6 = update_node T5 c (\<lambda>nd. nd\<lparr>childPointers := take (t - 1) (childPointers nd)\<rparr>);
                        T7 = update_node T6 n (\<lambda>nd. nd\<lparr>childPointers := movedc\<rparr>);
                        T8 = update_node T7 n (\<lambda>nd. nd\<lparr>nextLeaf := nextLeaf (store T7 ! c)\<rparr>)
                    in Inr (update_node T8 c (\<lambda>nd. nd\<lparr>nextLeaf := Some n\<rparr>)))))"

text \<open>
  The leaf branch of \<^verbatim>\<open>_insertNonFull\<close>: \<^verbatim>\<open>null\<close> is pushed on both arrays, the entries
  behind the insertion point move one place to the right, and the key and the value are
  written at \<open>scan_down key keys\<close>. On arrays of one length this is one \<^verbatim>\<open>splice\<close> at that
  index in each; on arrays of different lengths the pushed \<^verbatim>\<open>null\<close> would stay: \<open>Unmodelled\<close>.
\<close>

definition insert_in_leaf :: "'v BPlusTree \<Rightarrow> nat \<Rightarrow> int \<Rightarrow> 'v \<Rightarrow> 'v outcome" where
  "insert_in_leaf T a key v =
     (case node_at T a of
        Inl e \<Rightarrow> Inl (e, T)
      | Inr currentNode \<Rightarrow>
          if length (childPointers currentNode) \<noteq> length (keys currentNode) then Inl (Unmodelled, T)
          else
            let j = scan_down key (keys currentNode)
            in Inr (update_node T a
                 (\<lambda>nd. nd\<lparr>keys := splice_in j key (keys nd),
                          childPointers := splice_in j (Data v) (childPointers nd)\<rparr>)))"

text \<open>
  \<^verbatim>\<open>_insertNonFull(currentNode, key, value)\<close>. In an internal node the child at the scanned
  index is split first when it holds \<^verbatim>\<open>maxKeysPerNode\<close> keys, and the index moves one to the
  right when the key is greater than the key now at that index (a comparison with a
  missing key, \<^verbatim>\<open>undefined\<close>, is false). Reading \<^verbatim>\<open>.keys\<close> of a missing child throws with
  the tree as the splits so far have left it. The descent follows references in the
  store, so the model is a partial function: \<open>None\<close> stands for a descent that never ends.
\<close>

partial_function (option) BPlusTree_insertNonFull ::
  "'v BPlusTree \<Rightarrow> nat \<Rightarrow> int \<Rightarrow> 'v \<Rightarrow> 'v outcome option" where
  "BPlusTree_insertNonFull T a key v =
     (case node_at T a of
        Inl e \<Rightarrow> Some (Inl (e, T))
      | Inr currentNode \<Rightarrow>
          if isLeaf currentNode then Some (insert_in_leaf T a key v)
          else
            let keyIndex = scan_down key (keys currentNode)
            in (case child_ref (childPointers currentNode) keyIndex of
                  Inl e \<Rightarrow> Some (Inl (e, T))
                | Inr c \<Rightarrow>
                (case node_at T c of
                   Inl e \<Rightarrow> Some (Inl (e, T))
                 | Inr childNode \<Rightarrow>
                     if int (length (keys childNode)) = maxKeysPerNode T then
                       (case BPlusTree_splitChild T a keyIndex of
                          Inl eT \<Rightarrow> Some (Inl eT)
                        | Inr T' \<Rightarrow>
                            let ks = keys (store T' ! a);
                                keyIndex' = (if keyIndex < length ks \<and> key > ks ! keyIndex
                                             then keyIndex + 1 else keyIndex)
                            in (case child_ref (childPointers (store T' ! a)) keyIndex' of
                                  Inl e \<Rightarrow> Some (Inl (e, T'))
                                | Inr c' \<Rightarrow> BPlusTree_insertNonFull T' c' key v))
                     else BPlusTree_insertNonFull T c key v)))"

declare BPlusTree_insertNonFull.simps [code]

text \<open>
  \<^verbatim>\<open>insert(key, value)\<close>: the first key makes a leaf the root; a root holding
  \<^verbatim>\<open>maxKeysPerNode\<close> keys becomes child 0 of a new internal root and is split, and
  \<^verbatim>\<open>this.root\<close> is set after the split.
\<close>

definition BPlusTree_insert :: "'v BPlusTree \<Rightarrow> int \<Rightarrow> 'v \<Rightarrow> 'v outcome option" where
  "BPlusTree_insert T key v =
     (case rootNode T of
        None \<Rightarrow>
          Some (Inr (T\<lparr>store := store T @ [(newNode True)\<lparr>keys := [key], childPointers := [Data v]\<rparr>],
                       rootNode := Some (length (store T))\<rparr>))
      | Some r \<Rightarrow>
          (case node_at T r of
             Inl e \<Rightarrow> Some (Inl (e, T))
           | Inr rootN \<Rightarrow>
               if int (length (keys rootN)) = maxKeysPerNode T then
                 let n = length (store T);
                     T1 = T\<lparr>store := store T @ [(newNode False)\<lparr>childPointers := [Ref r]\<rparr>]\<rparr>
                 in (case BPlusTree_splitChild T1 n 0 of
                       Inl eT \<Rightarrow> Some (Inl eT)
                     | Inr T2 \<Rightarrow> BPlusTree_insertNonFull (T2\<lparr>rootNode := Some n\<rparr>) n key v)
               else BPlusTree_insertNonFull T r key v))"

text \<open>A sequence of \<^verbatim>\<open>insert\<close> calls; an exception ends it, with the tree as the throwing call left it.\<close>

fun BPlusTree_inserts :: "'v BPlusTree \<Rightarrow> (int \<times> 'v) list \<Rightarrow> 'v outcome option" where
  "BPlusTree_inserts T [] = Some (Inr T)"
| "BPlusTree_inserts T ((key, v) # kvs) =
     (case BPlusTree_insert T key v of
        None \<Rightarrow> None
      | Some (Inl eT) \<Rightarrow> Some (Inl eT)
      | Some (Inr T') \<Rightarrow> BPlusTree_inserts T' kvs)"

text \<open>
  A sequence of \<^verbatim>\<open>insert\<close> calls whose caller catches every exception and goes on with
  the same tree object: the tree after all the calls.
\<close>

fun BPlusTree_calls :: "'v BPlusTree \<Rightarrow> (int \<times> 'v) list \<Rightarrow> 'v BPlusTree option" where
  "BPlusTree_calls T [] = Some T"
| "BPlusTree_calls T ((key, v) # kvs) =
     (case BPlusTree_insert T key v of
        None \<Rightarrow> None
      | Some res \<Rightarrow> BPlusTree_calls (tree_of res) kvs)"

text \<open>
  What a read returns: \<^verbatim>\<open>null\<close>, \<^verbatim>\<open>undefined\<close> (an array read past its end), or an
  entry of \<^verbatim>\<open>childPointers\<close>.
\<close>

datatype 'v jsval = JSNull | JSUndefined | JSCell "'v cell"

definition js_nth :: "'v cell list \<Rightarrow> nat \<Rightarrow> 'v jsval" where
  "js_nth cps i = (if i < length cps then JSCell (cps ! i) else JSUndefined)"

text \<open>\<^verbatim>\<open>_recursiveSearch(currentNode, key)\<close>.\<close>

partial_function (option) BPlusTree_recursiveSearch ::
  "'v BPlusTree \<Rightarrow> nat \<Rightarrow> int \<Rightarrow> (error + 'v jsval) option" where
  "BPlusTree_recursiveSearch T a key =
     (case node_at T a of
        Inl e \<Rightarrow> Some (Inl e)
      | Inr currentNode \<Rightarrow>
          let keyIndex = scan_up key (keys currentNode)
          in if isLeaf currentNode then
               (if keyIndex < length (keys currentNode) \<and> key = keys currentNode ! keyIndex
                then Some (Inr (js_nth (childPointers currentNode) keyIndex))
                else Some (Inr JSNull))
             else
               (case child_ref (childPointers currentNode) keyIndex of
                  Inl e \<Rightarrow> Some (Inl e)
                | Inr c \<Rightarrow> BPlusTree_recursiveSearch T c key))"

declare BPlusTree_recursiveSearch.simps [code]

text \<open>\<^verbatim>\<open>search(key)\<close>, with its guard for the empty tree.\<close>

definition BPlusTree_search :: "'v BPlusTree \<Rightarrow> int \<Rightarrow> (error + 'v jsval) option" where
  "BPlusTree_search T key =
     (case rootNode T of
        None \<Rightarrow> Some (Inr JSNull)
      | Some r \<Rightarrow> BPlusTree_recursiveSearch T r key)"

text \<open>\<^verbatim>\<open>_findLeafNode(currentNode, key)\<close>; the result is the address of the leaf.\<close>

partial_function (option) BPlusTree_findLeafNode ::
  "'v BPlusTree \<Rightarrow> nat \<Rightarrow> int \<Rightarrow> (error + nat) option" where
  "BPlusTree_findLeafNode T a key =
     (case node_at T a of
        Inl e \<Rightarrow> Some (Inl e)
      | Inr currentNode \<Rightarrow>
          if isLeaf currentNode then Some (Inr a)
          else
            (case child_ref (childPointers currentNode) (scan_up key (keys currentNode)) of
               Inl e \<Rightarrow> Some (Inl e)
             | Inr c \<Rightarrow> BPlusTree_findLeafNode T c key))"

declare BPlusTree_findLeafNode.simps [code]

text \<open>
  The \<^verbatim>\<open>for\<close> loop of \<^verbatim>\<open>rangeQuery\<close> over the keys of one leaf, from index \<open>i\<close>: an entry in
  the range is pushed, and a key above \<open>endKey\<close> ends the whole query (the flag).
\<close>

fun scan_leaf ::
  "int \<Rightarrow> int \<Rightarrow> 'v cell list \<Rightarrow> nat \<Rightarrow> int list \<Rightarrow> (int \<times> 'v jsval) list
     \<Rightarrow> (int \<times> 'v jsval) list \<times> bool" where
  "scan_leaf startKey endKey cps i [] result = (result, False)"
| "scan_leaf startKey endKey cps i (k # ks) result =
     (let result' = (if k \<ge> startKey \<and> k \<le> endKey then result @ [(k, js_nth cps i)] else result)
      in if k > endKey then (result', True)
         else scan_leaf startKey endKey cps (i + 1) ks result')"

text \<open>The \<^verbatim>\<open>while (leafNode !== null)\<close> loop of \<^verbatim>\<open>rangeQuery\<close>, along \<^verbatim>\<open>nextLeaf\<close>.\<close>

partial_function (option) range_loop ::
  "'v BPlusTree \<Rightarrow> nat option \<Rightarrow> int \<Rightarrow> int \<Rightarrow> (int \<times> 'v jsval) list
     \<Rightarrow> (error + (int \<times> 'v jsval) list) option" where
  "range_loop T leafNode startKey endKey result =
     (case leafNode of
        None \<Rightarrow> Some (Inr result)
      | Some a \<Rightarrow>
          (case node_at T a of
             Inl e \<Rightarrow> Some (Inl e)
           | Inr nd \<Rightarrow>
               let scanned = scan_leaf startKey endKey (childPointers nd) 0 (keys nd) result
               in if snd scanned then Some (Inr (fst scanned))
                  else range_loop T (nextLeaf nd) startKey endKey (fst scanned)))"

declare range_loop.simps [code]

text \<open>
  \<^verbatim>\<open>rangeQuery(startKey, endKey)\<close>. It calls \<^verbatim>\<open>_findLeafNode(this.root, startKey)\<close> with no
  guard: on the empty tree that reads \<^verbatim>\<open>null.isLeaf\<close>.
\<close>

definition BPlusTree_rangeQuery ::
  "'v BPlusTree \<Rightarrow> int \<Rightarrow> int \<Rightarrow> (error + (int \<times> 'v jsval) list) option" where
  "BPlusTree_rangeQuery T startKey endKey =
     (case rootNode T of
        None \<Rightarrow> Some (Inl TypeError)
      | Some r \<Rightarrow>
          (case BPlusTree_findLeafNode T r startKey of
             None \<Rightarrow> None
           | Some (Inl e) \<Rightarrow> Some (Inl e)
           | Some (Inr leaf) \<Rightarrow> range_loop T (Some leaf) startKey endKey []))"

section \<open>Properties of the AVL tree and of the Treap: the predicates\<close>

text \<open>
  The balance condition on the stored heights: every height field is one more than the
  greater height of the children, and the heights of the children differ by at most one.
\<close>

fun avl :: "AVLNode \<Rightarrow> bool" where
  "avl Null = True"
| "avl (AVLNode v l r h) =
     (avl l \<and> avl r \<and> h = 1 + max (height l) (height r) \<and> \<bar>height l - height r\<bar> \<le> 1)"

text \<open>The height of a subtree as a tree, whatever the fields say.\<close>

fun true_height :: "AVLNode \<Rightarrow> int" where
  "true_height Null = 0"
| "true_height (AVLNode v l r h) = 1 + max (true_height l) (true_height r)"

text \<open>
  The balance condition as the specification words it: at every node the true heights of
  the subtrees differ by at most one and the stored height is the true height.
\<close>

fun balanced :: "AVLNode \<Rightarrow> bool" where
  "balanced Null = True"
| "balanced (AVLNode v l r h) =
     (balanced l \<and> balanced r \<and> \<bar>true_height l - true_height r\<bar> \<le> 1 \<and>
      h = true_height (AVLNode v l r h))"

text \<open>The stored values, and the search-tree order: left subtree, node, right subtree, strictly.\<close>

fun set_tree :: "AVLNode \<Rightarrow> int set" where
  "set_tree Null = {}"
| "set_tree (AVLNode v l r h) = set_tree l \<union> {v} \<union> set_tree r"

fun bst :: "AVLNode \<Rightarrow> bool" where
  "bst Null = True"
| "bst (AVLNode v l r h) =
     (bst l \<and> bst r \<and> (\<forall>k \<in> set_tree l. k < v) \<and> (\<forall>k \<in> set_tree r. v < k))"

text \<open>
  What an insertion that made a non-empty subtree higher looks like: the value went to
  the side of the new root that is now the higher one. This is what makes the choice of
  the rotation by comparing values agree with the shape of the tree.
\<close>

definition grew :: "AVLNode \<Rightarrow> int \<Rightarrow> AVLNode \<Rightarrow> bool" where
  "grew t x t' =
     (height t' = height t + 1 \<and> t \<noteq> Null \<longrightarrow>
        (\<exists>v l r h. t' = AVLNode v l r h \<and> x \<noteq> v \<and>
           (x < v \<longrightarrow> height l = height r + 1) \<and> (v < x \<longrightarrow> height r = height l + 1)))"

text \<open>The values of a treap, and its order: equal values may sit on either side.\<close>

fun treap_set :: "TreapNode \<Rightarrow> int set" where
  "treap_set TNull = {}"
| "treap_set (TreapNode v q l r) = treap_set l \<union> {v} \<union> treap_set r"

fun treap_ordered :: "TreapNode \<Rightarrow> bool" where
  "treap_ordered TNull = True"
| "treap_ordered (TreapNode v q l r) =
     (treap_ordered l \<and> treap_ordered r \<and>
      (\<forall>k \<in> treap_set l. k \<le> v) \<and> (\<forall>k \<in> treap_set r. v \<le> k))"

section \<open>Properties of the B+tree: the predicates\<close>

text \<open>
  What \<^verbatim>\<open>_splitChild\<close> leaves in the parent, in the child and in the new node, when parent
  and child are different objects.
\<close>

definition split_parent ::
  "'v BPlusTreeNode \<Rightarrow> 'v BPlusTreeNode \<Rightarrow> nat \<Rightarrow> nat \<Rightarrow> nat \<Rightarrow> 'v BPlusTreeNode" where
  "split_parent parent child i n t =
     parent\<lparr>childPointers := splice_in (i + 1) (Ref n) (childPointers parent),
            keys := splice_in i (keys child ! (t - 1)) (keys parent)\<rparr>"

definition split_left :: "'v BPlusTreeNode \<Rightarrow> nat \<Rightarrow> nat \<Rightarrow> 'v BPlusTreeNode" where
  "split_left child n t =
     (if isLeaf child
      then child\<lparr>keys := take (t - 1) (keys child),
                 childPointers := take (t - 1) (childPointers child), nextLeaf := Some n\<rparr>
      else child\<lparr>keys := take (t - 1) (keys child),
                 childPointers := take t (childPointers child)\<rparr>)"

definition split_right :: "'v BPlusTreeNode \<Rightarrow> nat \<Rightarrow> 'v BPlusTreeNode" where
  "split_right child t =
     (if isLeaf child
      then \<lparr>keys = drop (t - 1) (keys child),
            childPointers = drop (t - 1) (childPointers child), isLeaf = True,
            nextLeaf = nextLeaf child\<rparr>
      else \<lparr>keys = drop (t - 1) (keys child),
            childPointers = drop t (childPointers child), isLeaf = False, nextLeaf = None\<rparr>)"

text \<open>
  The invariant of the store, node by node. A rank function \<open>rk\<close> gives every node its
  height above the leaves: a leaf has rank 0 and as many data entries as keys, and every
  entry of an internal node refers to a node of the store whose rank is one less.
\<close>

definition node_ranked :: "'v BPlusTreeNode list \<Rightarrow> (nat \<Rightarrow> nat) \<Rightarrow> nat \<Rightarrow> bool" where
  "node_ranked s rk a =
     ((isLeaf (s ! a) \<longrightarrow> rk a = 0 \<and> length (childPointers (s ! a)) = length (keys (s ! a))) \<and>
      (\<not> isLeaf (s ! a) \<longrightarrow>
         (\<forall>c \<in> set (childPointers (s ! a)). \<exists>b. c = Ref b \<and> b < length s \<and> rk a = Suc (rk b))))"

text \<open>No node holds more than \<open>2t - 1\<close> keys, and none but the root fewer than \<open>t - 1\<close>.\<close>

definition node_bounded :: "'v BPlusTree \<Rightarrow> nat \<Rightarrow> bool" where
  "node_bounded T a =
     (int (length (keys (store T ! a))) \<le> 2 * int (minimumDegree T) - 1 \<and>
      (rootNode T \<noteq> Some a \<longrightarrow> minimumDegree T - 1 \<le> length (keys (store T ! a))))"

definition bpt_inv :: "'v BPlusTree \<Rightarrow> (nat \<Rightarrow> nat) \<Rightarrow> bool" where
  "bpt_inv T rk =
     (maxKeysPerNode T = 2 * int (minimumDegree T) - 1 \<and>
      (case rootNode T of None \<Rightarrow> store T = [] | Some r \<Rightarrow> r < length (store T)) \<and>
      (\<forall>a < length (store T). node_ranked (store T) rk a \<and> node_bounded T a))"

text \<open>
  The nodes of the tree with their depths: the root at depth 0, and every entry of an
  internal node one level below it.
\<close>

inductive at_depth :: "'v BPlusTree \<Rightarrow> nat \<Rightarrow> nat \<Rightarrow> bool" for T :: "'v BPlusTree" where
  at_root: "rootNode T = Some r \<Longrightarrow> at_depth T r 0"
| at_child: "at_depth T a d \<Longrightarrow> a < length (store T) \<Longrightarrow> \<not> isLeaf (store T ! a) \<Longrightarrow>
     Ref b \<in> set (childPointers (store T ! a)) \<Longrightarrow> at_depth T b (Suc d)"

text \<open>Every node below the root is a node of the store holding between \<open>t - 1\<close> and \<open>2t - 1\<close> keys.\<close>

definition key_count_ok :: "'v BPlusTree \<Rightarrow> bool" where
  "key_count_ok T =
     (\<forall>a d. at_depth T a (Suc d) \<longrightarrow>
        a < length (store T) \<and>
        minimumDegree T - 1 \<le> length (keys (store T ! a)) \<and>
        int (length (keys (store T ! a))) \<le> 2 * int (minimumDegree T) - 1)"

text \<open>All leaves of the tree are at one depth.\<close>

definition leaves_level :: "'v BPlusTree \<Rightarrow> bool" where
  "leaves_level T =
     (\<forall>a b d e. at_depth T a d \<and> isLeaf (store T ! a) \<and> at_depth T b e \<and> isLeaf (store T ! b)
        \<longrightarrow> d = e)"

section \<open>Runs of the B+tree used below\<close>

text \<open>
  The stored value of the \<open>i\<close>-th insertion is the number \<open>i\<close>, for the string
  \<^verbatim>\<open>data${i}\<close> of the test at the end of the source file.
\<close>

definition numbered :: "int list \<Rightarrow> (int \<times> nat) list" where
  "numbered ks = zip ks [0..<length ks]"

text \<open>Minimum degree 2, after inserting 1, 2, 3, 4, 5, 6: the internal root, node 1, is full.\<close>

definition six_keys_run :: "nat BPlusTree" where
  "six_keys_run =
     \<lparr>store =
        [\<lparr>keys = [1], childPointers = [Data 0], isLeaf = True, nextLeaf = Some 2\<rparr>,
         \<lparr>keys = [2, 3, 4], childPointers = [Ref 0, Ref 2, Ref 3, Ref 4], isLeaf = False,
            nextLeaf = None\<rparr>,
         \<lparr>keys = [2], childPointers = [Data 1], isLeaf = True, nextLeaf = Some 3\<rparr>,
         \<lparr>keys = [3], childPointers = [Data 2], isLeaf = True, nextLeaf = Some 4\<rparr>,
         \<lparr>keys = [4, 5, 6], childPointers = [Data 3, Data 4, Data 5], isLeaf = True,
            nextLeaf = None\<rparr>],
      rootNode = Some 1, minimumDegree = 2, maxKeysPerNode = 3\<rparr>"

text \<open>
  The tree that \<^verbatim>\<open>insert(7)\<close> leaves when it throws on the tree above: the root has been
  split (node 5 is the new root, node 6 the new right node) and 7 is stored nowhere.
\<close>

definition seventh_key_throws :: "nat BPlusTree" where
  "seventh_key_throws =
     \<lparr>store =
        [\<lparr>keys = [1], childPointers = [Data 0], isLeaf = True, nextLeaf = Some 2\<rparr>,
         \<lparr>keys = [2], childPointers = [Ref 0, Ref 2], isLeaf = False, nextLeaf = None\<rparr>,
         \<lparr>keys = [2], childPointers = [Data 1], isLeaf = True, nextLeaf = Some 3\<rparr>,
         \<lparr>keys = [3], childPointers = [Data 2], isLeaf = True, nextLeaf = Some 4\<rparr>,
         \<lparr>keys = [4, 5, 6], childPointers = [Data 3, Data 4, Data 5], isLeaf = True,
            nextLeaf = None\<rparr>,
         \<lparr>keys = [3], childPointers = [Ref 1, Ref 6], isLeaf = False, nextLeaf = None\<rparr>,
         \<lparr>keys = [3, 4], childPointers = [Ref 3, Ref 4], isLeaf = False, nextLeaf = None\<rparr>],
      rootNode = Some 5, minimumDegree = 2, maxKeysPerNode = 3\<rparr>"

text \<open>
  Minimum degree 2, after inserting 1, 2, 3, 4, 5, 6, 0. The seventh insertion finds the
  internal root (node 1) full, makes node 5 the new root and splits node 1 into itself
  and node 6.
\<close>

definition after_internal_split :: "nat BPlusTree" where
  "after_internal_split =
     \<lparr>store =
        [\<lparr>keys = [0, 1], childPointers = [Data 6, Data 0], isLeaf = True, nextLeaf = Some 2\<rparr>,
         \<lparr>keys = [2], childPointers = [Ref 0, Ref 2], isLeaf = False, nextLeaf = None\<rparr>,
         \<lparr>keys = [2], childPointers = [Data 1], isLeaf = True, nextLeaf = Some 3\<rparr>,
         \<lparr>keys = [3], childPointers = [Data 2], isLeaf = True, nextLeaf = Some 4\<rparr>,
         \<lparr>keys = [4, 5, 6], childPointers = [Data 3, Data 4, Data 5], isLeaf = True,
            nextLeaf = None\<rparr>,
         \<lparr>keys = [3], childPointers = [Ref 1, Ref 6], isLeaf = False, nextLeaf = None\<rparr>,
         \<lparr>keys = [3, 4], childPointers = [Ref 3, Ref 4], isLeaf = False, nextLeaf = None\<rparr>],
      rootNode = Some 5, minimumDegree = 2, maxKeysPerNode = 3\<rparr>"

text \<open>Minimum degree 2, after inserting 10, 20, 30, 40, 50, 35, 32.\<close>

definition after_misplaced_key :: "nat BPlusTree" where
  "after_misplaced_key =
     \<lparr>store =
        [\<lparr>keys = [10], childPointers = [Data 0], isLeaf = True, nextLeaf = Some 2\<rparr>,
         \<lparr>keys = [20], childPointers = [Ref 0, Ref 2], isLeaf = False, nextLeaf = None\<rparr>,
         \<lparr>keys = [20], childPointers = [Data 1], isLeaf = True, nextLeaf = Some 3\<rparr>,
         \<lparr>keys = [30, 35], childPointers = [Data 2, Data 5], isLeaf = True, nextLeaf = Some 4\<rparr>,
         \<lparr>keys = [32, 40, 50], childPointers = [Data 6, Data 3, Data 4], isLeaf = True,
            nextLeaf = None\<rparr>,
         \<lparr>keys = [30], childPointers = [Ref 1, Ref 6], isLeaf = False, nextLeaf = None\<rparr>,
         \<lparr>keys = [30, 40], childPointers = [Ref 3, Ref 4], isLeaf = False, nextLeaf = None\<rparr>],
      rootNode = Some 5, minimumDegree = 2, maxKeysPerNode = 3\<rparr>"

text \<open>Minimum degree 1, after inserting 1 and 2.\<close>

definition degree_one_run :: "nat BPlusTree" where
  "degree_one_run =
     \<lparr>store =
        [\<lparr>keys = [], childPointers = [], isLeaf = True, nextLeaf = Some 2\<rparr>,
         \<lparr>keys = [1, 1], childPointers = [Ref 0, Ref 2, Ref 3], isLeaf = False, nextLeaf = None\<rparr>,
         \<lparr>keys = [], childPointers = [], isLeaf = True, nextLeaf = Some 3\<rparr>,
         \<lparr>keys = [1, 2], childPointers = [Data 0, Data 1], isLeaf = True, nextLeaf = None\<rparr>],
      rootNode = Some 1, minimumDegree = 1, maxKeysPerNode = 1\<rparr>"

text \<open>
  Minimum degree 3, after the ten insertions of the test at the end of the source file:
  3, 7, 1, 5, 11, 17, 13, 2, 19, 23.
\<close>

definition source_test_run :: "nat BPlusTree" where
  "source_test_run =
     \<lparr>store =
        [\<lparr>keys = [1, 2, 3], childPointers = [Data 2, Data 7, Data 0], isLeaf = True,
            nextLeaf = Some 2\<rparr>,
         \<lparr>keys = [5, 11], childPointers = [Ref 0, Ref 2, Ref 3], isLeaf = False, nextLeaf = None\<rparr>,
         \<lparr>keys = [5, 7], childPointers = [Data 3, Data 1], isLeaf = True, nextLeaf = Some 3\<rparr>,
         \<lparr>keys = [11, 13, 17, 19, 23],
            childPointers = [Data 4, Data 6, Data 5, Data 8, Data 9], isLeaf = True,
            nextLeaf = None\<rparr>],
      rootNode = Some 1, minimumDegree = 3, maxKeysPerNode = 5\<rparr>"

section \<open>The AVL tree: insertion keeps the order and the balance\<close>

lemma avl_height_nonneg: "avl t \<Longrightarrow> 0 \<le> height t"
  by (induction t) auto

lemma avl_height_0: "avl t \<Longrightarrow> height t = 0 \<longleftrightarrow> t = Null"
proof (cases t)
  case Null
  then show ?thesis by simp
next
  case (AVLNode v l r h)
  assume "avl t"
  with AVLNode have "0 \<le> height l" "0 \<le> height r" "h = 1 + max (height l) (height r)"
    using avl_height_nonneg by auto
  then show ?thesis using AVLNode by auto
qed

text \<open>
  Rebalancing after an insertion into the left subtree. When the left subtree has become
  two higher than the right one, it is a node that grew, so the value went to its higher
  side: a single rotation when that is its left side, a double rotation otherwise. The
  result is balanced and in order, and it is one higher than the old tree only if no
  rotation took place.
\<close>

lemma rebalance_left:
  assumes "avl l" "avl r" "\<bar>height l - height r\<bar> \<le> 1" "avl l'"
    "height l' = height l \<or> height l' = height l + 1" "grew l x l'"
    "bst l'" "bst r" "\<forall>k \<in> set_tree l'. k < v" "\<forall>k \<in> set_tree r. v < k" "x < v"
  shows "\<exists>t'. rebalance (AVLNode v l' r h0) x = Inr t' \<and> avl t' \<and> bst t'
      \<and> set_tree t' = set_tree l' \<union> {v} \<union> set_tree r
      \<and> (height t' = 1 + max (height l) (height r) \<or> height t' = 2 + max (height l) (height r))
      \<and> (height t' = 2 + max (height l) (height r) \<longrightarrow>
            t' = AVLNode v l' r (height t') \<and> height l' = height r + 1)"
proof (cases "height l' - height r > 1")
  case False
  then show ?thesis using assms by (auto simp: rebalance_def max_def)
next
  case True
  with assms have hl: "height l' = height l + 1" "height l = height r + 1" by auto
  have "l \<noteq> Null" using hl avl_height_nonneg[OF assms(2)] by auto
  with assms(6) hl obtain lv ll lr lh where l': "l' = AVLNode lv ll lr lh" "x \<noteq> lv"
     "x < lv \<longrightarrow> height ll = height lr + 1" "lv < x \<longrightarrow> height lr = height ll + 1"
    by (auto simp: grew_def)
  show ?thesis
  proof (cases "x < lv")
    case True
    then show ?thesis using assms l' hl \<open>height l' - height r > 1\<close>
      by (auto simp: rebalance_def max_def Let_def)
  next
    case False
    then have "lv < x" using l' by auto
    then have h: "height lr = height ll + 1" using l' by auto
    have "avl lr" using assms(4) l' by auto
    then have "lr \<noteq> Null" using h avl_height_nonneg[of ll] assms(4) l' by (cases lr) auto
    then obtain mv ml mr mh where lr: "lr = AVLNode mv ml mr mh" by (cases lr) auto
    show ?thesis using assms l' hl \<open>height l' - height r > 1\<close> False h lr
      by (auto simp: rebalance_def max_def Let_def split: if_splits)
  qed
qed

text \<open>The mirror image, after an insertion into the right subtree.\<close>

lemma rebalance_right:
  assumes "avl l" "avl r" "\<bar>height l - height r\<bar> \<le> 1" "avl r'"
    "height r' = height r \<or> height r' = height r + 1" "grew r x r'"
    "bst l" "bst r'" "\<forall>k \<in> set_tree l. k < v" "\<forall>k \<in> set_tree r'. v < k" "v < x"
  shows "\<exists>t'. rebalance (AVLNode v l r' h0) x = Inr t' \<and> avl t' \<and> bst t'
      \<and> set_tree t' = set_tree l \<union> {v} \<union> set_tree r'
      \<and> (height t' = 1 + max (height l) (height r) \<or> height t' = 2 + max (height l) (height r))
      \<and> (height t' = 2 + max (height l) (height r) \<longrightarrow>
            t' = AVLNode v l r' (height t') \<and> height r' = height l + 1)"
proof (cases "height l - height r' < - 1")
  case False
  then show ?thesis using assms by (auto simp: rebalance_def max_def)
next
  case True
  with assms have hr: "height r' = height r + 1" "height r = height l + 1" by auto
  have "r \<noteq> Null" using hr avl_height_nonneg[OF assms(1)] by auto
  with assms(6) hr obtain rv rl rr rh where r': "r' = AVLNode rv rl rr rh" "x \<noteq> rv"
     "x < rv \<longrightarrow> height rl = height rr + 1" "rv < x \<longrightarrow> height rr = height rl + 1"
    by (auto simp: grew_def)
  show ?thesis
  proof (cases "rv < x")
    case True
    then show ?thesis using assms r' hr \<open>height l - height r' < - 1\<close>
      by (auto simp: rebalance_def max_def Let_def)
  next
    case False
    then have "x < rv" using r' by auto
    then have h: "height rl = height rr + 1" using r' by auto
    have "avl rl" using assms(4) r' by auto
    then have "rl \<noteq> Null" using h avl_height_nonneg[of rr] assms(4) r' by (cases rl) auto
    then obtain mv ml mr mh where rl: "rl = AVLNode mv ml mr mh" by (cases rl) auto
    show ?thesis using assms r' hr \<open>height l - height r' < - 1\<close> False h rl
      by (auto simp: rebalance_def max_def Let_def split: if_splits)
  qed
qed

lemma rebalance_same:
  "avl (AVLNode v l r h) \<Longrightarrow> rebalance (AVLNode v l r h) x = Inr (AVLNode v l r h)"
  by (auto simp: rebalance_def Let_def)

text \<open>
  \<^verbatim>\<open>_insert\<close> on a balanced search tree never throws; the result is balanced and in
  order, holds the old values and the new one, and is the old tree itself when the value
  was present.
\<close>

lemma insert'_inv:
  "avl t \<Longrightarrow> bst t \<Longrightarrow>
   \<exists>t'. AVLTree_insert' t x = Inr t' \<and> avl t' \<and> bst t'
      \<and> set_tree t' = insert x (set_tree t)
      \<and> (height t' = height t \<or> height t' = height t + 1)
      \<and> grew t x t' \<and> (x \<in> set_tree t \<longrightarrow> t' = t)"
proof (induction t)
  case Null
  then show ?case by (simp add: grew_def)
next
  case (AVLNode v l r h)
  have al: "avl l" "avl r" "bst l" "bst r" and hh: "h = 1 + max (height l) (height r)"
    and bal: "\<bar>height l - height r\<bar> \<le> 1"
    and ord: "\<forall>k \<in> set_tree l. k < v" "\<forall>k \<in> set_tree r. v < k"
    using AVLNode.prems by auto
  show ?case
  proof (cases "x < v")
    case True
    from AVLNode.IH(1)[OF al(1) al(3)] obtain l' where l':
      "AVLTree_insert' l x = Inr l'" "avl l'" "bst l'" "set_tree l' = insert x (set_tree l)"
      "height l' = height l \<or> height l' = height l + 1" "grew l x l'"
      "x \<in> set_tree l \<longrightarrow> l' = l" by blast
    have ord': "\<forall>k \<in> set_tree l'. k < v" using l'(4) ord True by auto
    from rebalance_left[OF al(1) al(2) bal l'(2) l'(5) l'(6) l'(3) al(4) ord' ord(2) True, of h]
    obtain t' where t': "rebalance (AVLNode v l' r h) x = Inr t'" "avl t'" "bst t'"
      "set_tree t' = set_tree l' \<union> {v} \<union> set_tree r"
      "height t' = 1 + max (height l) (height r) \<or> height t' = 2 + max (height l) (height r)"
      "height t' = 2 + max (height l) (height r) \<longrightarrow>
            t' = AVLNode v l' r (height t') \<and> height l' = height r + 1" by blast
    have dup: "x \<in> set_tree (AVLNode v l r h) \<longrightarrow> t' = AVLNode v l r h"
    proof
      assume "x \<in> set_tree (AVLNode v l r h)"
      with True ord have "x \<in> set_tree l" by auto
      with l'(7) have "l' = l" by simp
      with t'(1) rebalance_same[OF AVLNode.prems(1), of x] show "t' = AVLNode v l r h" by simp
    qed
    have g: "grew (AVLNode v l r h) x t'"
      unfolding grew_def using t'(6) hh True by auto
    show ?thesis using True l'(1) t' dup g hh l'(4) by auto
  next
    case False
    show ?thesis
    proof (cases "v < x")
      case True
      from AVLNode.IH(2)[OF al(2) al(4)] obtain r' where r':
        "AVLTree_insert' r x = Inr r'" "avl r'" "bst r'" "set_tree r' = insert x (set_tree r)"
        "height r' = height r \<or> height r' = height r + 1" "grew r x r'"
        "x \<in> set_tree r \<longrightarrow> r' = r" by blast
      have ord': "\<forall>k \<in> set_tree r'. v < k" using r'(4) ord True by auto
      from rebalance_right[OF al(1) al(2) bal r'(2) r'(5) r'(6) al(3) r'(3) ord(1) ord' True, of h]
      obtain t' where t': "rebalance (AVLNode v l r' h) x = Inr t'" "avl t'" "bst t'"
        "set_tree t' = set_tree l \<union> {v} \<union> set_tree r'"
        "height t' = 1 + max (height l) (height r) \<or> height t' = 2 + max (height l) (height r)"
        "height t' = 2 + max (height l) (height r) \<longrightarrow>
              t' = AVLNode v l r' (height t') \<and> height r' = height l + 1" by blast
      have dup: "x \<in> set_tree (AVLNode v l r h) \<longrightarrow> t' = AVLNode v l r h"
      proof
        assume "x \<in> set_tree (AVLNode v l r h)"
        with True ord have "x \<in> set_tree r" by auto
        with r'(7) have "r' = r" by simp
        with t'(1) rebalance_same[OF AVLNode.prems(1), of x] show "t' = AVLNode v l r h" by simp
      qed
      have g: "grew (AVLNode v l r h) x t'"
        unfolding grew_def using t'(6) hh True by auto
      show ?thesis using True False r'(1) t' dup g hh r'(4) by auto
    next
      case False
      with \<open>\<not> x < v\<close> have "x = v" by simp
      then show ?thesis using AVLNode.prems by (auto simp: grew_def)
    qed
  qed
qed

lemma set_inorder: "set (inorderTraversal t) = set_tree t"
  by (induction t) auto

lemma bst_sorted: "bst t \<Longrightarrow> sorted_wrt (<) (inorderTraversal t)"
  by (induction t) (fastforce simp: sorted_wrt_append set_inorder)+

lemma bst_inorder_eq: "bst t \<Longrightarrow> inorderTraversal t = sorted_list_of_set (set_tree t)"
  using bst_sorted[of t] set_inorder[of t]
  by (metis sorted_list_of_set.idem_if_sorted_distinct strict_sorted_iff)

text \<open>
  The walk of \<^verbatim>\<open>_kthSmallestHelper\<close> from a counter \<open>c\<close> over \<open>n\<close> nodes: a hit when
  \<open>c < k \<le> c + n\<close>, after which the counter stays at or above \<open>k\<close> and nothing is
  overwritten; no hit otherwise.
\<close>

lemma helper_spec:
  "(count res \<ge> k \<longrightarrow>
      found (kthSmallestHelper t k res) = found res \<and> count (kthSmallestHelper t k res) \<ge> k) \<and>
   (count res < k \<and> k \<le> count res + int (length (inorderTraversal t)) \<longrightarrow>
      found (kthSmallestHelper t k res) = Some (inorderTraversal t ! nat (k - count res - 1))
      \<and> count (kthSmallestHelper t k res) \<ge> k) \<and>
   (k > count res + int (length (inorderTraversal t)) \<longrightarrow>
      kthSmallestHelper t k res = res\<lparr>count := count res + int (length (inorderTraversal t))\<rparr>)"
proof (induction t arbitrary: res)
  case Null
  then show ?case by auto
next
  case (AVLNode v l r h)
  let ?r1 = "kthSmallestHelper l k res"
  let ?r2 = "?r1\<lparr>count := count ?r1 + 1\<rparr>"
  note L = AVLNode.IH(1)[of res]
  note R = AVLNode.IH(2)[of ?r2]
  let ?nl = "int (length (inorderTraversal l))"
  consider (a) "count res \<ge> k" | (b) "count res < k" "k \<le> count res + ?nl"
    | (c) "k = count res + ?nl + 1" | (d) "k > count res + ?nl + 1" by linarith
  then show ?case
  proof cases
    case a
    with L have "found ?r1 = found res" "count ?r1 \<ge> k" by auto
    then show ?thesis using a R by (auto simp: Let_def)
  next
    case b
    with L have 1: "found ?r1 = Some (inorderTraversal l ! nat (k - count res - 1))" "count ?r1 \<ge> k"
      by auto
    have "nat (k - count res - 1) < length (inorderTraversal l)" using b by linarith
    then show ?thesis using b 1 R by (auto simp: Let_def nth_append)
  next
    case c
    with L have 1: "?r1 = res\<lparr>count := count res + ?nl\<rparr>" by auto
    have "nat (k - count res - 1) = length (inorderTraversal l)" using c by linarith
    then show ?thesis using c 1 by (auto simp: Let_def nth_append)
  next
    case d
    with L have 1: "?r1 = res\<lparr>count := count res + ?nl\<rparr>" by auto
    have 2: "\<not> nat (k - count res - 1) < length (inorderTraversal l)" using d by linarith
    have 3: "nat (k - count res - 1) - length (inorderTraversal l) = Suc (nat (k - (count res + ?nl + 1) - 1))"
      using d by linarith
    show ?thesis using d 1 R 2 3 by (auto simp: Let_def nth_append algebra_simps)
  qed
qed

lemma kthSmallest_inorder:
  "kthSmallest t k =
     (if 1 \<le> k \<and> k \<le> int (length (inorderTraversal t))
      then Some (inorderTraversal t ! nat (k - 1)) else None)"
  using helper_spec[of k "\<lparr>count = 0, found = None\<rparr>" t]
  by (auto simp: kthSmallest_def)

lemma avl_true_height: "avl t \<Longrightarrow> height t = true_height t"
  by (induction t) auto

lemma avl_balanced: "avl t \<Longrightarrow> balanced t"
  by (induction t) (auto simp: avl_true_height)

lemma AVLTree_inserts_inv:
  "avl t \<Longrightarrow> bst t \<Longrightarrow>
   \<exists>t'. AVLTree_inserts t xs = Inr t' \<and> avl t' \<and> bst t' \<and> set_tree t' = set_tree t \<union> set xs"
proof (induction xs arbitrary: t)
  case Nil
  then show ?case by simp
next
  case (Cons x xs)
  from insert'_inv[OF Cons.prems, of x] obtain t1 where t1:
    "AVLTree_insert' t x = Inr t1" "avl t1" "bst t1" "set_tree t1 = insert x (set_tree t)"
    by blast
  from Cons.IH[OF t1(2,3)] obtain t' where
    "AVLTree_inserts t1 xs = Inr t'" "avl t'" "bst t'" "set_tree t' = set_tree t1 \<union> set xs"
    by blast
  then show ?case using t1 by (auto simp: AVLTree_insert_def)
qed

section \<open>The Treap: insertion keeps the order and adds one node\<close>

lemma treap_set_inorder: "set (Treap_inorderTraversal u) = treap_set u"
  by (induction u) auto

lemma treap_ordered_sorted: "treap_ordered u \<Longrightarrow> sorted (Treap_inorderTraversal u)"
  by (induction u) (fastforce simp: sorted_append treap_set_inorder)+

text \<open>
  \<^verbatim>\<open>_insert\<close> of the Treap never throws, adds the value once more, and keeps the order
  with equal keys allowed on both sides.
\<close>

lemma Treap_insert'_spec:
  "\<exists>u'. Treap_insert' u x p = Inr u' \<and> u' \<noteq> TNull
      \<and> mset (Treap_inorderTraversal u') = add_mset x (mset (Treap_inorderTraversal u))
      \<and> treap_set u' = insert x (treap_set u)
      \<and> (treap_ordered u \<longrightarrow> treap_ordered u')"
proof (induction u)
  case TNull
  then show ?case by simp
next
  case (TreapNode v q l r)
  show ?case
  proof (cases "x < v")
    case True
    from TreapNode.IH(1) obtain l' where l': "Treap_insert' l x p = Inr l'" "l' \<noteq> TNull"
      "mset (Treap_inorderTraversal l') = add_mset x (mset (Treap_inorderTraversal l))"
      "treap_set l' = insert x (treap_set l)"
      "treap_ordered l \<longrightarrow> treap_ordered l'" by blast
    then obtain lv lp ll lr where n: "l' = TreapNode lv lp ll lr" by (cases l') auto
    have ord: "treap_ordered (TreapNode v q l r) \<longrightarrow>
        treap_ordered l' \<and> treap_ordered r \<and> (\<forall>k \<in> treap_set l'. k \<le> v) \<and> (\<forall>k \<in> treap_set r. v \<le> k)"
      using l'(4,5) True by auto
    have st: "treap_set l' \<union> {v} \<union> treap_set r = insert x (treap_set (TreapNode v q l r))"
      using l'(4) by auto
    have ms: "mset (Treap_inorderTraversal l') + {#v#} + mset (Treap_inorderTraversal r)
        = add_mset x (mset (Treap_inorderTraversal (TreapNode v q l r)))"
      using l'(3) by simp
    show ?thesis
    proof (cases "lp > q")
      case rot: True
      have "Treap_insert' (TreapNode v q l r) x p = Inr (TreapNode lv lp ll (TreapNode v q lr r))"
        using True l'(1) n rot by simp
      moreover have "treap_ordered (TreapNode v q l r) \<longrightarrow> treap_ordered (TreapNode lv lp ll (TreapNode v q lr r))"
        using ord unfolding n by auto
      moreover have "treap_set (TreapNode lv lp ll (TreapNode v q lr r)) = insert x (treap_set (TreapNode v q l r))"
        using st unfolding n by auto
      moreover have "mset (Treap_inorderTraversal (TreapNode lv lp ll (TreapNode v q lr r)))
          = add_mset x (mset (Treap_inorderTraversal (TreapNode v q l r)))"
        using ms unfolding n by simp
      ultimately show ?thesis by blast
    next
      case norot: False
      have "Treap_insert' (TreapNode v q l r) x p = Inr (TreapNode v q l' r)"
        using True l'(1) n norot by simp
      moreover have "treap_ordered (TreapNode v q l r) \<longrightarrow> treap_ordered (TreapNode v q l' r)"
        using ord by auto
      moreover have "treap_set (TreapNode v q l' r) = insert x (treap_set (TreapNode v q l r))"
        using st by auto
      moreover have "mset (Treap_inorderTraversal (TreapNode v q l' r))
          = add_mset x (mset (Treap_inorderTraversal (TreapNode v q l r)))"
        using ms by simp
      ultimately show ?thesis by blast
    qed
  next
    case False
    from TreapNode.IH(2) obtain r' where r': "Treap_insert' r x p = Inr r'" "r' \<noteq> TNull"
      "mset (Treap_inorderTraversal r') = add_mset x (mset (Treap_inorderTraversal r))"
      "treap_set r' = insert x (treap_set r)"
      "treap_ordered r \<longrightarrow> treap_ordered r'" by blast
    then obtain rv rp rl rr where n: "r' = TreapNode rv rp rl rr" by (cases r') auto
    have ord: "treap_ordered (TreapNode v q l r) \<longrightarrow>
        treap_ordered l \<and> treap_ordered r' \<and> (\<forall>k \<in> treap_set l. k \<le> v) \<and> (\<forall>k \<in> treap_set r'. v \<le> k)"
      using r'(4,5) False by auto
    have st: "treap_set l \<union> {v} \<union> treap_set r' = insert x (treap_set (TreapNode v q l r))"
      using r'(4) by auto
    have ms: "mset (Treap_inorderTraversal l) + {#v#} + mset (Treap_inorderTraversal r')
        = add_mset x (mset (Treap_inorderTraversal (TreapNode v q l r)))"
      using r'(3) by simp
    show ?thesis
    proof (cases "rp > q")
      case rot: True
      have "Treap_insert' (TreapNode v q l r) x p = Inr (TreapNode rv rp (TreapNode v q l rl) rr)"
        using False r'(1) n rot by simp
      moreover have "treap_ordered (TreapNode v q l r) \<longrightarrow> treap_ordered (TreapNode rv rp (TreapNode v q l rl) rr)"
        using ord unfolding n by auto
      moreover have "treap_set (TreapNode rv rp (TreapNode v q l rl) rr) = insert x (treap_set (TreapNode v q l r))"
        using st unfolding n by auto
      moreover have "mset (Treap_inorderTraversal (TreapNode rv rp (TreapNode v q l rl) rr))
          = add_mset x (mset (Treap_inorderTraversal (TreapNode v q l r)))"
        using ms unfolding n by simp
      ultimately show ?thesis by blast
    next
      case norot: False
      have "Treap_insert' (TreapNode v q l r) x p = Inr (TreapNode v q l r')"
        using False r'(1) n norot by simp
      moreover have "treap_ordered (TreapNode v q l r) \<longrightarrow> treap_ordered (TreapNode v q l r')"
        using ord by auto
      moreover have "treap_set (TreapNode v q l r') = insert x (treap_set (TreapNode v q l r))"
        using st by auto
      moreover have "mset (Treap_inorderTraversal (TreapNode v q l r'))
          = add_mset x (mset (Treap_inorderTraversal (TreapNode v q l r)))"
        using ms by simp
      ultimately show ?thesis by blast
    qed
  qed
qed

lemma Treap_inserts_spec:
  "treap_ordered u \<Longrightarrow>
   \<exists>u'. Treap_inserts u kps = Inr u' \<and> treap_ordered u'
      \<and> mset (Treap_inorderTraversal u') = mset (map fst kps) + mset (Treap_inorderTraversal u)"
proof (induction kps arbitrary: u)
  case Nil
  then show ?case by simp
next
  case (Cons kp kps)
  obtain x p where kp: "kp = (x, p)" by (cases kp)
  from Treap_insert'_spec[of u x p] Cons.prems obtain u1 where u1:
    "Treap_insert' u x p = Inr u1" "treap_ordered u1"
    "mset (Treap_inorderTraversal u1) = add_mset x (mset (Treap_inorderTraversal u))" by blast
  from Cons.IH[OF u1(2)] obtain u' where "Treap_inserts u1 kps = Inr u'" "treap_ordered u'"
    "mset (Treap_inorderTraversal u') = mset (map fst kps) + mset (Treap_inorderTraversal u1)"
    by blast
  then show ?case using u1 kp by (auto simp: Treap_insert_def)
qed

lemma Treap_inserts_sorted:
  "\<exists>u. Treap_inserts TNull kps = Inr u \<and> sorted (Treap_inorderTraversal u)
      \<and> treap_ordered u
      \<and> mset (Treap_inorderTraversal u) = mset (map fst kps)
      \<and> (distinct (map fst kps) \<longrightarrow> sorted_wrt (<) (Treap_inorderTraversal u))"
proof -
  from Treap_inserts_spec[of TNull kps] obtain u where u: "Treap_inserts TNull kps = Inr u"
    "treap_ordered u" "mset (Treap_inorderTraversal u) = mset (map fst kps)" by auto
  have s: "sorted (Treap_inorderTraversal u)" by (rule treap_ordered_sorted[OF u(2)])
  have "distinct (map fst kps) \<longrightarrow> distinct (Treap_inorderTraversal u)"
    using mset_eq_imp_distinct_iff[OF u(3)] by simp
  then show ?thesis using u s by (auto simp: strict_sorted_iff)
qed

lemma Treap_search'_set: "Treap_search' u x \<Longrightarrow> x \<in> treap_set u"
  by (induction u) (auto split: if_splits)

text \<open>
  \<^verbatim>\<open>_delete\<close> removes one occurrence of a value that is present in an ordered treap, so
  a value stored once is not found afterwards.
\<close>

lemma Treap_delete'_mset:
  "treap_ordered u \<Longrightarrow> x \<in> treap_set u \<Longrightarrow>
   mset (Treap_inorderTraversal (Treap_delete' u x)) = mset (Treap_inorderTraversal u) - {#x#}"
proof (induction u x rule: Treap_delete'.induct)
  case (1 x)
  then show ?case by simp
next
  case (2 v q l r x)
  show ?case
  proof (cases "x < v")
    case True
    with "2.prems" have "x \<in> treap_set l" by auto
    with "2.IH"(1)[OF True] "2.prems" True show ?thesis
      by (simp add: treap_set_inorder[symmetric])
  next
    case nl: False
    show ?thesis
    proof (cases "x > v")
      case True
      with "2.prems" have "x \<in> treap_set r" by auto
      with "2.IH"(2)[OF nl True] "2.prems" True nl show ?thesis
        by (simp add: treap_set_inorder[symmetric])
    next
      case False
      with nl have xv: "x = v" by simp
      show ?thesis
      proof (cases l)
        case TNull
        then show ?thesis using xv by (cases r) auto
      next
        case L: (TreapNode lv lp ll lr)
        show ?thesis
        proof (cases r)
          case TNull
          then show ?thesis using xv L by auto
        next
          case R: (TreapNode rv rp rl rr)
          show ?thesis
          proof (cases "lp > rp")
            case True
            have o: "treap_ordered (TreapNode v q lr r)" using "2.prems"(1) L by auto
            have m: "x \<in> treap_set (TreapNode v q lr r)" using xv by simp
            from "2.IH"(3)[OF nl False refl L R True o m] L R
            show ?thesis using xv L R True by simp
          next
            case nr: False
            have o: "treap_ordered (TreapNode v q l rl)" using "2.prems"(1) R by auto
            have m: "x \<in> treap_set (TreapNode v q l rl)" using xv by simp
            from "2.IH"(4)[OF nl False refl L R nr o m] L R
            show ?thesis using xv L R nr by simp
          qed
        qed
      qed
    qed
  qed
qed

lemma Treap_delete_then_search:
  assumes "treap_ordered u" "Multiset.count (mset (Treap_inorderTraversal u)) x = 1"
  shows "\<not> Treap_search (Treap_delete u x) x"
proof
  assume "Treap_search (Treap_delete u x) x"
  then have "x \<in> treap_set (Treap_delete' u x)"
    using Treap_search'_set by (simp add: Treap_search_def Treap_delete_def)
  then have "Multiset.count (mset (Treap_inorderTraversal (Treap_delete' u x))) x > 0"
    by (simp add: treap_set_inorder[symmetric])
  moreover have "x \<in> treap_set u" using assms(2)
    by (metis count_mset_0_iff treap_set_inorder zero_neq_one)
  ultimately show False using Treap_delete'_mset[OF assms(1), of x] assms(2) by simp
qed



section \<open>The B+tree: insertion keeps the key counts and the level of the leaves\<close>

text \<open>
  \<^verbatim>\<open>_splitChild\<close> on a parent and a child that are different nodes, the child holding at
  least \<open>t\<close> keys: the store afterwards, in one piece.
\<close>

lemma splitChild_explicit:
  assumes "p < length (store T)" "c < length (store T)" "p \<noteq> c"
    "child_ref (childPointers (store T ! p)) i = Inr c"
    "1 \<le> minimumDegree T" "minimumDegree T - 1 < length (keys (store T ! c))"
  shows "BPlusTree_splitChild T p i =
     Inr (T\<lparr>store := (store T)[p := split_parent (store T ! p) (store T ! c) i (length (store T)) (minimumDegree T),
                               c := split_left (store T ! c) (length (store T)) (minimumDegree T)]
                     @ [split_right (store T ! c) (minimumDegree T)]\<rparr>)"
  using assms
  unfolding BPlusTree_splitChild_def
  by (auto simp: node_at_def update_node_def Let_def nth_append newNode_def
     split_parent_def split_left_def split_right_def nth_list_update list_update_append
     list_update_swap[of p c] intro!: arg_cong[where f="\<lambda>s. T\<lparr>store := s\<rparr>"])

lemma set_splice_in [simp]: "set (splice_in i x xs) = insert x (set xs)"
proof -
  have "set xs = set (take i xs) \<union> set (drop i xs)"
    by (metis append_take_drop_id set_append)
  then show ?thesis by (auto simp: splice_in_def)
qed

lemma length_splice_in [simp]: "length (splice_in i x xs) = Suc (length xs)"
  by (simp add: splice_in_def)

lemma scan_down_le: "scan_down k ks \<le> length ks"
  by (simp add: scan_down_def)

lemma child_ref_mem: "child_ref cps i = Inr c \<Longrightarrow> Ref c \<in> set cps"
  by (auto simp: child_ref_def split: if_splits cell.splits dest: nth_mem)

lemma insert_in_leaf_inv:
  assumes "bpt_inv T rk" "a < length (store T)" "isLeaf (store T ! a)"
    "int (length (keys (store T ! a))) < 2 * int (minimumDegree T) - 1"
  shows "\<exists>T'. insert_in_leaf T a k v = Inr T' \<and> bpt_inv T' rk \<and> rootNode T' = rootNode T
     \<and> minimumDegree T' = minimumDegree T"
proof -
  have eq: "length (childPointers (store T ! a)) = length (keys (store T ! a))"
    using assms by (auto simp: bpt_inv_def node_ranked_def)
  let ?T' = "update_node T a
                 (\<lambda>nd. nd\<lparr>keys := splice_in (scan_down k (keys (store T ! a))) k (keys nd),
                          childPointers := splice_in (scan_down k (keys (store T ! a))) (Data v) (childPointers nd)\<rparr>)"
  have 1: "insert_in_leaf T a k v = Inr ?T'"
    using assms(2) eq by (simp add: insert_in_leaf_def node_at_def Let_def)
  have 2: "bpt_inv ?T' rk"
    unfolding bpt_inv_def
  proof (intro conjI allI impI)
    show "maxKeysPerNode ?T' = 2 * int (minimumDegree ?T') - 1"
      using assms(1) by (simp add: bpt_inv_def update_node_def)
    show "case rootNode ?T' of None \<Rightarrow> store ?T' = [] | Some r \<Rightarrow> r < length (store ?T')"
      using assms(1,2) by (auto simp: bpt_inv_def update_node_def split: option.splits)
  next
    fix b assume b: "b < length (store ?T')"
    then have b': "b < length (store T)" by (simp add: update_node_def)
    with assms(1) have old: "node_ranked (store T) rk b" "node_bounded T b"
      by (auto simp: bpt_inv_def)
    show "node_ranked (store ?T') rk b"
      using old(1) b' assms(2,3) eq
      by (cases "b = a") (auto simp: node_ranked_def update_node_def)
    show "node_bounded ?T' b"
      using old(2) b' assms(2,4)
      by (cases "b = a") (auto simp: node_bounded_def update_node_def)
  qed
  show ?thesis using 1 2 by (auto simp: update_node_def)
qed

lemma child_ref_splice:
  assumes "child_ref cps i = Inr c"
  shows "child_ref (splice_in (i + 1) (Ref n) cps) i = Inr c"
    and "child_ref (splice_in (i + 1) (Ref n) cps) (i + 1) = Inr n"
  using assms
  by (auto simp: child_ref_def splice_in_def nth_append split: if_splits cell.splits)

lemma ranked_subset:
  assumes "\<forall>c \<in> set cps. \<exists>b. c = Ref b \<and> b < n \<and> r = Suc (rk b)" "set cps' \<subseteq> set cps"
  shows "\<forall>c \<in> set cps'. \<exists>b. c = Ref b \<and> b < Suc n \<and> r = Suc ((rk(n := x)) b)"
proof
  fix c assume "c \<in> set cps'"
  with assms obtain b where "c = Ref b" "b < n" "r = Suc (rk b)" by blast
  then show "\<exists>b. c = Ref b \<and> b < Suc n \<and> r = Suc ((rk(n := x)) b)"
    by (intro exI[of _ b]) auto
qed

text \<open>
  Splitting a full child of a node that is not full keeps the invariant; the new node
  gets the rank of the child. The child keeps \<open>t - 1\<close> keys and the new node gets \<open>t\<close>.
\<close>

lemma split_inv:
  assumes inv: "bpt_inv T rk" and a: "a < length (store T)" "\<not> isLeaf (store T ! a)"
    and nonfull: "int (length (keys (store T ! a))) < 2 * int (minimumDegree T) - 1"
    and cr: "child_ref (childPointers (store T ! a)) i = Inr c"
    and full: "int (length (keys (store T ! c))) = 2 * int (minimumDegree T) - 1"
    and t2: "2 \<le> minimumDegree T"
  shows "\<exists>T'. BPlusTree_splitChild T a i = Inr T'
      \<and> bpt_inv T' (rk(length (store T) := rk c))
      \<and> rootNode T' = rootNode T \<and> minimumDegree T' = minimumDegree T
      \<and> length (store T') = Suc (length (store T))
      \<and> \<not> isLeaf (store T' ! a)
      \<and> child_ref (childPointers (store T' ! a)) i = Inr c
      \<and> child_ref (childPointers (store T' ! a)) (i + 1) = Inr (length (store T))
      \<and> length (keys (store T' ! c)) = minimumDegree T - 1
      \<and> length (keys (store T' ! length (store T))) = minimumDegree T
      \<and> c < length (store T) \<and> rk a = Suc (rk c)
      \<and> length (keys (store T' ! a)) = Suc (length (keys (store T ! a)))"
proof -
  let ?t = "minimumDegree T"
  let ?n = "length (store T)"
  let ?rk = "rk(?n := rk c)"
  have ra: "node_ranked (store T) rk a" using inv a by (auto simp: bpt_inv_def)
  from child_ref_mem[OF cr] ra a(2) have c: "c < ?n" "rk a = Suc (rk c)"
    by (auto simp: node_ranked_def)
  then have ne: "a \<noteq> c" by auto
  have lk: "length (keys (store T ! c)) = 2 * ?t - 1" using full t2 by linarith
  have pre: "1 \<le> ?t" "?t - 1 < length (keys (store T ! c))" using lk t2 by auto
  let ?P = "split_parent (store T ! a) (store T ! c) i ?n ?t"
  let ?L = "split_left (store T ! c) ?n ?t"
  let ?R = "split_right (store T ! c) ?t"
  define T' where "T' = T\<lparr>store := (store T)[a := ?P, c := ?L] @ [?R]\<rparr>"
  have ex: "BPlusTree_splitChild T a i = Inr T'"
    unfolding T'_def by (rule splitChild_explicit[OF a(1) c(1) ne cr pre])
  have sa: "store T' ! a = ?P" using a(1) ne by (simp add: T'_def nth_append)
  have sc: "store T' ! c = ?L" using c(1) by (simp add: T'_def nth_append)
  have sn: "store T' ! ?n = ?R" by (simp add: T'_def nth_append)
  have so: "\<And>b. b < ?n \<Longrightarrow> b \<noteq> a \<Longrightarrow> b \<noteq> c \<Longrightarrow> store T' ! b = store T ! b"
    by (simp add: T'_def nth_append)
  have len: "length (store T') = Suc ?n" by (simp add: T'_def)
  have fields: "rootNode T' = rootNode T" "minimumDegree T' = ?t"
    "maxKeysPerNode T' = maxKeysPerNode T" by (simp_all add: T'_def)
  have rc: "node_ranked (store T) rk c" using inv c(1) by (auto simp: bpt_inv_def)
  have inv': "bpt_inv T' ?rk"
    unfolding bpt_inv_def
  proof (intro conjI allI impI)
    show "maxKeysPerNode T' = 2 * int (minimumDegree T') - 1"
      using inv by (simp add: bpt_inv_def fields)
    show "case rootNode T' of None \<Rightarrow> store T' = [] | Some r \<Rightarrow> r < length (store T')"
      using inv a(1) by (auto simp: bpt_inv_def fields len split: option.splits)
  next
    fix b assume "b < length (store T')"
    then have b: "b < Suc ?n" by (simp add: len)
    consider (pa) "b = a" | (pc) "b = c" | (pn) "b = ?n" | (po) "b < ?n" "b \<noteq> a" "b \<noteq> c"
      using b by linarith
    then show "node_ranked (store T') ?rk b"
    proof cases
      case pa
      from ra a(2) have "\<forall>ca \<in> set (childPointers (store T ! a)).
            \<exists>b. ca = Ref b \<and> b < ?n \<and> rk a = Suc (rk b)" by (simp add: node_ranked_def)
      from ranked_subset[OF this subset_refl, of "rk c"]
      show ?thesis using a c unfolding pa node_ranked_def
        by (simp add: sa len split_parent_def)
    next
      case pc
      show ?thesis
      proof (cases "isLeaf (store T ! c)")
        case True
        then show ?thesis using rc c lk unfolding pc node_ranked_def
          by (simp add: sc len split_left_def)
      next
        case False
        with rc have "\<forall>ca \<in> set (childPointers (store T ! c)).
            \<exists>b. ca = Ref b \<and> b < ?n \<and> rk c = Suc (rk b)" by (simp add: node_ranked_def)
        from ranked_subset[OF this set_take_subset, of ?t "rk c"]
        show ?thesis using False c unfolding pc node_ranked_def
          by (simp add: sc len split_left_def)
      qed
    next
      case pn
      show ?thesis
      proof (cases "isLeaf (store T ! c)")
        case True
        then show ?thesis using rc c lk unfolding pn node_ranked_def
          by (simp add: sn len split_right_def)
      next
        case False
        with rc have "\<forall>ca \<in> set (childPointers (store T ! c)).
            \<exists>b. ca = Ref b \<and> b < ?n \<and> rk c = Suc (rk b)" by (simp add: node_ranked_def)
        from ranked_subset[OF this set_drop_subset, of ?t "rk c"]
        show ?thesis using False c unfolding pn node_ranked_def
          by (simp add: sn len split_right_def)
      qed
    next
      case po
      have rb: "node_ranked (store T) rk b" using inv po by (auto simp: bpt_inv_def)
      show ?thesis
      proof (cases "isLeaf (store T ! b)")
        case True
        then show ?thesis using rb po unfolding node_ranked_def
          by (simp add: so[OF po] len)
      next
        case False
        with rb have "\<forall>ca \<in> set (childPointers (store T ! b)).
            \<exists>b'. ca = Ref b' \<and> b' < ?n \<and> rk b = Suc (rk b')" by (simp add: node_ranked_def)
        from ranked_subset[OF this subset_refl, of "rk c"]
        show ?thesis using False po unfolding node_ranked_def
          by (simp add: so[OF po] len)
      qed
    qed
  next
    fix b assume "b < length (store T')"
    then have b: "b < Suc ?n" by (simp add: len)
    consider (pa) "b = a" | (pc) "b = c" | (pn) "b = ?n" | (po) "b < ?n" "b \<noteq> a" "b \<noteq> c"
      using b by linarith
    then show "node_bounded T' b"
    proof cases
      case pa
      have "node_bounded T a" using inv a by (auto simp: bpt_inv_def)
      then show ?thesis using nonfull unfolding pa node_bounded_def
        by (auto simp: sa fields split_parent_def)
    next
      case pc
      show ?thesis using lk t2 unfolding pc node_bounded_def
        by (auto simp: sc fields split_left_def)
    next
      case pn
      show ?thesis using lk t2 unfolding pn node_bounded_def
        by (auto simp: sn fields split_right_def)
    next
      case po
      have "node_bounded T b" using inv po by (auto simp: bpt_inv_def)
      then show ?thesis using po unfolding node_bounded_def
        by (auto simp: so[OF po] fields)
    qed
  qed
  have ch: "child_ref (childPointers (store T' ! a)) i = Inr c"
       "child_ref (childPointers (store T' ! a)) (i + 1) = Inr ?n"
    using child_ref_splice[OF cr] by (simp_all add: sa split_parent_def)
  have k: "length (keys (store T' ! c)) = ?t - 1" "length (keys (store T' ! ?n)) = ?t"
    using lk t2 by (auto simp: sc sn split_left_def split_right_def)
  have il: "\<not> isLeaf (store T' ! a)" using a(2) by (simp add: sa split_parent_def)
  have ka: "length (keys (store T' ! a)) = Suc (length (keys (store T ! a)))"
    by (simp add: sa split_parent_def)
  show ?thesis
    using ex inv' ch k il c fields len ka by (intro exI[of _ T']) simp
qed

lemma child_ref_error: "child_ref cps i = Inl e \<Longrightarrow> e = TypeError"
  by (auto simp: child_ref_def split: if_splits cell.splits)

text \<open>
  \<^verbatim>\<open>_insertNonFull\<close> on a node that is not full: the descent ends, by induction on the
  rank of the node, and the tree it leaves, by returning or by throwing, satisfies the
  invariant again.
\<close>

lemma insertNonFull_inv:
  "bpt_inv T rk \<Longrightarrow> 2 \<le> minimumDegree T \<Longrightarrow> a < length (store T) \<Longrightarrow>
   int (length (keys (store T ! a))) < 2 * int (minimumDegree T) - 1 \<Longrightarrow> rk a = n \<Longrightarrow>
   \<exists>res. BPlusTree_insertNonFull T a k v = Some res \<and> (\<forall>T'. res \<noteq> Inl (Unmodelled, T')) \<and>
     (\<exists>rk'. bpt_inv (tree_of res) rk') \<and> rootNode (tree_of res) = rootNode T
         \<and> minimumDegree (tree_of res) = minimumDegree T"
proof (induction n arbitrary: T rk a)
  case 0
  show ?case
  proof (cases "isLeaf (store T ! a)")
    case True
    from insert_in_leaf_inv[OF "0.prems"(1,3) True "0.prems"(4), of k v]
    show ?thesis using True "0.prems"(3)
      by (subst BPlusTree_insertNonFull.simps) (auto simp: node_at_def tree_of_def)
  next
    case False
    have ra: "node_ranked (store T) rk a" using "0.prems" by (auto simp: bpt_inv_def)
    have "child_ref (childPointers (store T ! a)) (scan_down k (keys (store T ! a))) = Inl TypeError"
    proof (cases "child_ref (childPointers (store T ! a)) (scan_down k (keys (store T ! a)))")
      case (Inl e)
      then show ?thesis using child_ref_error[OF Inl] by simp
    next
      case (Inr c)
      from child_ref_mem[OF Inr] ra False "0.prems"(5) show ?thesis
        by (auto simp: node_ranked_def)
    qed
    then show ?thesis using False "0.prems"(1,3)
      by (subst BPlusTree_insertNonFull.simps) (auto simp: node_at_def Let_def tree_of_def)
  qed
next
  case (Suc n)
  let ?t = "minimumDegree T"
  show ?case
  proof (cases "isLeaf (store T ! a)")
    case True
    from insert_in_leaf_inv[OF Suc.prems(1,3) True Suc.prems(4), of k v]
    show ?thesis using True Suc.prems(3)
      by (subst BPlusTree_insertNonFull.simps) (auto simp: node_at_def tree_of_def)
  next
    case False
    have ra: "node_ranked (store T) rk a" using Suc.prems by (auto simp: bpt_inv_def)
    let ?i = "scan_down k (keys (store T ! a))"
    show ?thesis
    proof (cases "child_ref (childPointers (store T ! a)) ?i")
      case (Inl e)
      then show ?thesis using False Suc.prems(1,3) child_ref_error[OF Inl]
        by (subst BPlusTree_insertNonFull.simps) (auto simp: node_at_def Let_def tree_of_def)
    next
      case (Inr c)
      from child_ref_mem[OF Inr] ra False Suc.prems(5)
      have c: "c < length (store T)" "rk c = n" by (auto simp: node_ranked_def)
      have mk: "maxKeysPerNode T = 2 * int ?t - 1" using Suc.prems(1) by (simp add: bpt_inv_def)
      have bc: "node_bounded T c" using Suc.prems(1) c by (auto simp: bpt_inv_def)
      show ?thesis
      proof (cases "int (length (keys (store T ! c))) = 2 * int ?t - 1")
        case full: True
        from split_inv[OF Suc.prems(1,3) False Suc.prems(4) Inr full Suc.prems(2)]
        obtain T' where T': "BPlusTree_splitChild T a ?i = Inr T'"
          "bpt_inv T' (rk(length (store T) := rk c))"
          "rootNode T' = rootNode T" "minimumDegree T' = ?t"
          "length (store T') = Suc (length (store T))"
          "child_ref (childPointers (store T' ! a)) ?i = Inr c"
          "child_ref (childPointers (store T' ! a)) (?i + 1) = Inr (length (store T))"
          "length (keys (store T' ! c)) = ?t - 1"
          "length (keys (store T' ! length (store T))) = ?t" by blast
        let ?rk = "rk(length (store T) := rk c)"
        let ?ks = "keys (store T' ! a)"
        let ?i' = "if ?i < length ?ks \<and> k > ?ks ! ?i then ?i + 1 else ?i"
        have t2: "2 \<le> minimumDegree T'" using T'(4) Suc.prems(2) by simp
        have step: "BPlusTree_insertNonFull T a k v =
           (case child_ref (childPointers (store T' ! a)) ?i' of
              Inl e \<Rightarrow> Some (Inl (e, T')) | Inr c' \<Rightarrow> BPlusTree_insertNonFull T' c' k v)"
          using False Suc.prems(3) Inr c full mk T'(1)
          by (subst BPlusTree_insertNonFull.simps) (simp add: node_at_def Let_def)
        show ?thesis
        proof (cases "?i < length ?ks \<and> k > ?ks ! ?i")
          case True
          have "\<exists>res. BPlusTree_insertNonFull T' (length (store T)) k v = Some res \<and>
             (\<forall>T''. res \<noteq> Inl (Unmodelled, T'')) \<and>
             (\<exists>rk'. bpt_inv (tree_of res) rk') \<and> rootNode (tree_of res) = rootNode T'
               \<and> minimumDegree (tree_of res) = minimumDegree T'"
            using T' c Suc.prems(2)
            by (intro Suc.IH[OF T'(2) t2, of "length (store T)"]) auto
          then show ?thesis using step True T'(7) T'(3,4) by auto
        next
          case False
          have "\<exists>res. BPlusTree_insertNonFull T' c k v = Some res \<and>
             (\<forall>T''. res \<noteq> Inl (Unmodelled, T'')) \<and>
             (\<exists>rk'. bpt_inv (tree_of res) rk') \<and> rootNode (tree_of res) = rootNode T'
               \<and> minimumDegree (tree_of res) = minimumDegree T'"
            using T' c Suc.prems(2)
            by (intro Suc.IH[OF T'(2) t2, of c]) auto
          then show ?thesis using step False T'(6) T'(3,4) by auto
        qed
      next
        case notfull: False
        have lt: "int (length (keys (store T ! c))) < 2 * int ?t - 1"
          using bc notfull by (auto simp: node_bounded_def)
        have step: "BPlusTree_insertNonFull T a k v = BPlusTree_insertNonFull T c k v"
          using False Suc.prems(3) Inr c notfull mk
          by (subst BPlusTree_insertNonFull.simps) (simp add: node_at_def Let_def)
        from Suc.IH[OF Suc.prems(1,2) c(1) lt c(2)] show ?thesis using step by simp
      qed
    qed
  qed
qed

lemma new_root_inv:
  assumes inv: "bpt_inv T rk" and r: "rootNode T = Some r"
    and full: "int (length (keys (store T ! r))) = 2 * int (minimumDegree T) - 1"
  shows "bpt_inv (T\<lparr>store := store T @ [(newNode False)\<lparr>childPointers := [Ref r]\<rparr>],
                    rootNode := Some (length (store T))\<rparr>)
                 (rk(length (store T) := Suc (rk r)))"
proof -
  let ?n = "length (store T)"
  let ?T1 = "T\<lparr>store := store T @ [(newNode False)\<lparr>childPointers := [Ref r]\<rparr>],
                    rootNode := Some ?n\<rparr>"
  let ?rk = "rk(?n := Suc (rk r))"
  have rl: "r < ?n" using inv r by (simp add: bpt_inv_def)
  show ?thesis
    unfolding bpt_inv_def
  proof (intro conjI allI impI)
    show "maxKeysPerNode ?T1 = 2 * int (minimumDegree ?T1) - 1"
      using inv by (simp add: bpt_inv_def)
    show "case rootNode ?T1 of None \<Rightarrow> store ?T1 = [] | Some r \<Rightarrow> r < length (store ?T1)"
      by simp
  next
    fix b assume "b < length (store ?T1)"
    then have b: "b < Suc ?n" by simp
    show "node_ranked (store ?T1) ?rk b"
    proof (cases "b = ?n")
      case True
      then show ?thesis using rl by (simp add: node_ranked_def newNode_def)
    next
      case False
      with b have bl: "b < ?n" by simp
      have rb: "node_ranked (store T) rk b" using inv bl by (auto simp: bpt_inv_def)
      show ?thesis
      proof (cases "isLeaf (store T ! b)")
        case True
        then show ?thesis using rb bl by (simp add: node_ranked_def nth_append)
      next
        case nl: False
        with rb have "\<forall>ca \<in> set (childPointers (store T ! b)).
            \<exists>b'. ca = Ref b' \<and> b' < ?n \<and> rk b = Suc (rk b')" by (simp add: node_ranked_def)
        from ranked_subset[OF this subset_refl, of "Suc (rk r)"]
        show ?thesis using nl bl by (simp add: node_ranked_def nth_append)
      qed
    qed
    show "node_bounded ?T1 b"
    proof (cases "b = ?n")
      case True
      then show ?thesis using full by (simp add: node_bounded_def newNode_def)
    next
      case False
      with b have bl: "b < ?n" by simp
      have "node_bounded T b" using inv bl by (auto simp: bpt_inv_def)
      then show ?thesis using bl r full
        by (cases "b = r") (auto simp: node_bounded_def nth_append)
    qed
  qed
qed

lemma insert_inv:
  assumes inv: "bpt_inv T rk" and t2: "2 \<le> minimumDegree T"
  shows "\<exists>res. BPlusTree_insert T k v = Some res \<and> (\<forall>T'. res \<noteq> Inl (Unmodelled, T')) \<and>
     (\<exists>rk'. bpt_inv (tree_of res) rk') \<and> minimumDegree (tree_of res) = minimumDegree T"
proof (cases "rootNode T")
  case None
  then have e: "store T = []" using inv by (simp add: bpt_inv_def)
  let ?T' = "T\<lparr>store := store T @ [(newNode True)\<lparr>keys := [k], childPointers := [Data v]\<rparr>],
                rootNode := Some (length (store T))\<rparr>"
  have "bpt_inv ?T' (\<lambda>_. 0)"
    using inv t2 e by (auto simp: bpt_inv_def node_ranked_def node_bounded_def newNode_def)
  then show ?thesis using None by (auto simp: BPlusTree_insert_def tree_of_def)
next
  case (Some r)
  let ?t = "minimumDegree T"
  let ?n = "length (store T)"
  have rl: "r < ?n" using inv Some by (simp add: bpt_inv_def)
  have mk: "maxKeysPerNode T = 2 * int ?t - 1" using inv by (simp add: bpt_inv_def)
  have br: "node_bounded T r" using inv rl by (auto simp: bpt_inv_def)
  show ?thesis
  proof (cases "int (length (keys (store T ! r))) = 2 * int ?t - 1")
    case full: True
    let ?T1 = "T\<lparr>store := store T @ [(newNode False)\<lparr>childPointers := [Ref r]\<rparr>]\<rparr>"
    let ?T1' = "T\<lparr>store := store T @ [(newNode False)\<lparr>childPointers := [Ref r]\<rparr>],
                    rootNode := Some ?n\<rparr>"
    let ?rk = "rk(?n := Suc (rk r))"
    have eq1: "?T1' = ?T1\<lparr>rootNode := Some ?n\<rparr>" by simp
    have inv1: "bpt_inv ?T1' ?rk" by (rule new_root_inv[OF inv Some full])
    have a1: "?n < length (store ?T1')" "\<not> isLeaf (store ?T1' ! ?n)"
      "int (length (keys (store ?T1' ! ?n))) < 2 * int (minimumDegree ?T1') - 1"
      "child_ref (childPointers (store ?T1' ! ?n)) 0 = Inr r"
      "int (length (keys (store ?T1' ! r))) = 2 * int (minimumDegree ?T1') - 1"
      "2 \<le> minimumDegree ?T1'"
      using t2 rl full by (simp_all add: newNode_def child_ref_def nth_append)
    from split_inv[OF inv1 a1]
    obtain T2 where T2: "BPlusTree_splitChild ?T1' ?n 0 = Inr T2"
      "bpt_inv T2 (?rk(length (store ?T1') := ?rk r))"
      "rootNode T2 = rootNode ?T1'" "minimumDegree T2 = minimumDegree ?T1'"
      "length (store T2) = Suc (length (store ?T1'))"
      "length (keys (store T2 ! ?n)) = Suc (length (keys (store ?T1' ! ?n)))"
      by blast
    have pre: "?n < length (store ?T1)" "r < length (store ?T1)" "?n \<noteq> r"
      "child_ref (childPointers (store ?T1 ! ?n)) 0 = Inr r"
      "1 \<le> minimumDegree ?T1" "minimumDegree ?T1 - 1 < length (keys (store ?T1 ! r))"
      using t2 rl full by (simp_all add: newNode_def child_ref_def nth_append)
    have pre': "?n < length (store ?T1')" "r < length (store ?T1')" "?n \<noteq> r"
      "child_ref (childPointers (store ?T1' ! ?n)) 0 = Inr r"
      "1 \<le> minimumDegree ?T1'" "minimumDegree ?T1' - 1 < length (keys (store ?T1' ! r))"
      using t2 rl full by (simp_all add: newNode_def child_ref_def nth_append)
    have "\<exists>T2'. BPlusTree_splitChild ?T1 ?n 0 = Inr T2' \<and> T2 = T2'\<lparr>rootNode := Some ?n\<rparr>"
      using T2(1) unfolding splitChild_explicit[OF pre] splitChild_explicit[OF pre'] by auto
    then obtain T2' where T2': "BPlusTree_splitChild ?T1 ?n 0 = Inr T2'"
      "T2 = T2'\<lparr>rootNode := Some ?n\<rparr>" by blast
    have step: "BPlusTree_insert T k v = BPlusTree_insertNonFull T2 ?n k v"
      using Some rl full mk T2'
      by (simp add: BPlusTree_insert_def node_at_def Let_def)
    have k1: "int (length (keys (store T2 ! ?n))) < 2 * int (minimumDegree T2) - 1"
      using T2(4,6) t2 by (simp add: newNode_def)
    have "?n < length (store T2)" using T2(5) by simp
    from insertNonFull_inv[OF T2(2) _ this k1 refl, of k v] T2(4) t2
    show ?thesis using step by auto
  next
    case False
    then have lt: "int (length (keys (store T ! r))) < 2 * int ?t - 1"
      using br by (auto simp: node_bounded_def)
    have step: "BPlusTree_insert T k v = BPlusTree_insertNonFull T r k v"
      using Some rl False mk by (simp add: BPlusTree_insert_def node_at_def)
    from insertNonFull_inv[OF inv t2 rl lt refl, of k v] show ?thesis using step by auto
  qed
qed

lemma inserts_inv:
  "bpt_inv T rk \<Longrightarrow> 2 \<le> minimumDegree T \<Longrightarrow>
   \<exists>res. BPlusTree_inserts T kvs = Some res \<and> (\<forall>T'. res \<noteq> Inl (Unmodelled, T')) \<and>
     (\<exists>rk'. bpt_inv (tree_of res) rk') \<and> minimumDegree (tree_of res) = minimumDegree T"
proof (induction kvs arbitrary: T rk)
  case Nil
  then show ?case by (auto simp: tree_of_def)
next
  case (Cons kv kvs)
  obtain k v where kv: "kv = (k, v)" by (cases kv)
  from insert_inv[OF Cons.prems, of k v] obtain res rk' where res:
    "BPlusTree_insert T k v = Some res" "\<forall>T'. res \<noteq> Inl (Unmodelled, T')"
    "bpt_inv (tree_of res) rk'" "minimumDegree (tree_of res) = minimumDegree T"
    by blast
  show ?case
  proof (cases res)
    case (Inl eT)
    then show ?thesis using res kv by auto
  next
    case (Inr T')
    then have "bpt_inv T' rk'" "minimumDegree T' = minimumDegree T"
      using res(3,4) by (simp_all add: tree_of_def)
    from Cons.IH[OF this(1)] this(2) Cons.prems(2) show ?thesis using res(1) kv Inr by simp
  qed
qed

text \<open>The same when the caller catches the exceptions and goes on.\<close>

lemma calls_inv:
  "bpt_inv T rk \<Longrightarrow> 2 \<le> minimumDegree T \<Longrightarrow>
   \<exists>T'. BPlusTree_calls T kvs = Some T' \<and> (\<exists>rk'. bpt_inv T' rk')
      \<and> minimumDegree T' = minimumDegree T"
proof (induction kvs arbitrary: T rk)
  case Nil
  then show ?case by auto
next
  case (Cons kv kvs)
  obtain k v where kv: "kv = (k, v)" by (cases kv)
  from insert_inv[OF Cons.prems, of k v] obtain res rk' where res:
    "BPlusTree_insert T k v = Some res"
    "bpt_inv (tree_of res) rk'" "minimumDegree (tree_of res) = minimumDegree T"
    by blast
  from Cons.IH[OF res(2)] res(3) Cons.prems(2) show ?case using res(1) kv by simp
qed

lemma new_inv: "bpt_inv (BPlusTree_new t) (\<lambda>_. 0)"
  by (simp add: bpt_inv_def BPlusTree_new_def)

text \<open>Under the invariant, depth and rank of a node of the tree add up to the rank of the root.\<close>

lemma at_depth_rank:
  assumes "bpt_inv T rk" "at_depth T a d"
  shows "a < length (store T) \<and> (\<exists>r. rootNode T = Some r \<and> rk r = rk a + d)"
  using assms(2)
proof (induction rule: at_depth.induct)
  case (at_root r)
  then show ?case using assms(1) by (simp add: bpt_inv_def)
next
  case (at_child a d b)
  have "node_ranked (store T) rk a" using assms(1) at_child.hyps(2) by (simp add: bpt_inv_def)
  with at_child.hyps(3,4) have "b < length (store T)" "rk a = Suc (rk b)"
    by (auto simp: node_ranked_def)
  then show ?case using at_child.IH by auto
qed

lemma inv_key_count_ok: "bpt_inv T rk \<Longrightarrow> key_count_ok T"
  unfolding key_count_ok_def
proof (intro allI impI)
  fix a d assume inv: "bpt_inv T rk" and ad: "at_depth T a (Suc d)"
  from at_depth_rank[OF inv ad] obtain r where r: "a < length (store T)" "rootNode T = Some r"
    "rk r = rk a + Suc d" by blast
  then have "a \<noteq> r" by auto
  moreover have "node_bounded T a" using inv r(1) by (simp add: bpt_inv_def)
  ultimately show "a < length (store T) \<and> minimumDegree T - 1 \<le> length (keys (store T ! a)) \<and>
        int (length (keys (store T ! a))) \<le> 2 * int (minimumDegree T) - 1"
    using r by (auto simp: node_bounded_def)
qed

lemma inv_leaves_level: "bpt_inv T rk \<Longrightarrow> leaves_level T"
  unfolding leaves_level_def
proof (intro allI impI, elim conjE)
  fix a b d e
  assume inv: "bpt_inv T rk" and a: "at_depth T a d" "isLeaf (store T ! a)"
    and b: "at_depth T b e" "isLeaf (store T ! b)"
  from at_depth_rank[OF inv a(1)] obtain r where r: "a < length (store T)" "rootNode T = Some r"
    "rk r = rk a + d" by blast
  from at_depth_rank[OF inv b(1)] r(2) have r': "b < length (store T)" "rk r = rk b + e" by auto
  have "rk a = 0" "rk b = 0" using inv r(1) r'(1) a(2) b(2)
    by (auto simp: bpt_inv_def node_ranked_def)
  then show "d = e" using r(3) r'(2) by simp
qed

text \<open>With \<open>low > high\<close> no entry is ever pushed: a \<^verbatim>\<open>rangeQuery\<close> that returns, returns nothing.\<close>

lemma scan_leaf_empty_range:
  "hi < lo \<Longrightarrow> fst (scan_leaf lo hi cps i ks acc) = acc"
  by (induction ks arbitrary: i) (auto simp: Let_def)


lemma range_loop_empty_range:
  assumes "range_loop T0 leaf0 lo0 hi0 acc0 = Some r0"
  shows "hi0 < lo0 \<longrightarrow> r0 = Inr acc0 \<or> r0 = Inl TypeError"
proof (rule range_loop.raw_induct[where P = "\<lambda>T leaf lo hi acc r. hi < lo \<longrightarrow> r = Inr acc \<or> r = Inl TypeError",
      OF _ assms], goal_cases)
  case (1 range_loop T leaf lo hi acc r)
  show ?case
  proof
    assume lt: "hi < lo"
    show "r = Inr acc \<or> r = Inl TypeError"
    proof (cases leaf)
      case None
      with 1(2) show ?thesis by simp
    next
      case (Some a)
      show ?thesis
      proof (cases "a < length (store T)")
        case False
        with 1(2) Some show ?thesis by (simp add: node_at_def)
      next
        case True
        let ?sc = "scan_leaf lo hi (childPointers (store T ! a)) 0 (keys (store T ! a)) acc"
        have f: "fst ?sc = acc" by (rule scan_leaf_empty_range[OF lt])
        show ?thesis
        proof (cases "snd ?sc")
          case True
          with 1(2) Some \<open>a < length (store T)\<close> f show ?thesis
            by (simp add: node_at_def Let_def)
        next
          case False
          with 1(2) Some \<open>a < length (store T)\<close> f
          have "range_loop T (nextLeaf (store T ! a)) lo hi acc = Some r"
            by (simp add: node_at_def Let_def)
          from 1(1)[OF this] lt show ?thesis by simp
        qed
      qed
    qed
  qed
qed

lemma rangeQuery_empty_range:
  assumes "BPlusTree_rangeQuery T lo hi = Some (Inr res)" "hi < lo"
  shows "res = []"
proof -
  from assms(1) obtain leaf where "range_loop T (Some leaf) lo hi [] = Some (Inr res)"
    by (auto simp: BPlusTree_rangeQuery_def split: option.splits sum.splits)
  from range_loop_empty_range[OF this] assms(2) show ?thesis by simp
qed

text \<open>
  A duplicate insert can change what \<^verbatim>\<open>search\<close> returns for another key. Minimum degree
  3, keys 1, 3, 5, 7, 11: \<^verbatim>\<open>search(5)\<close> finds the value. Inserting 11 again splits the
  root leaf, 5 becomes the separator and the first key of the right leaf, and
  \<^verbatim>\<open>search(5)\<close>, which goes left on an equal separator, returns \<^verbatim>\<open>null\<close>.
\<close>

lemma BPlusTree_duplicate_changes_search:
  "\<exists>T T' :: nat BPlusTree.
     BPlusTree_inserts (BPlusTree_new 3) (numbered [1, 3, 5, 7, 11]) = Some (Inr T)
     \<and> BPlusTree_search T 11 = Some (Inr (JSCell (Data 4)))
     \<and> BPlusTree_search T 5 = Some (Inr (JSCell (Data 2)))
     \<and> BPlusTree_insert T 11 5 = Some (Inr T')
     \<and> BPlusTree_search T' 5 = Some (Inr JSNull)"
  by (simp add: numbered_def BPlusTree_new_def BPlusTree_insert_def
      BPlusTree_insertNonFull.simps BPlusTree_splitChild_def insert_in_leaf_def node_at_def
      child_ref_def update_node_def splice_in_def scan_down_def scan_up_def newNode_def Let_def
      upt_rec BPlusTree_search_def BPlusTree_recursiveSearch.simps js_nth_def)

section \<open>The claims\<close>

text \<open>
  Claim C9. Starting from an empty AVL tree, inserting 10, 20, 30, 40, 50, 25 in that
  order gives a tree whose in-order traversal is 10, 20, 25, 30, 40, 50, and
  \<^verbatim>\<open>kthSmallest(3)\<close> on that tree returns 25.
\<close>

theorem AVL_scenario:
  "AVLTree_inserts Null [10, 20, 30, 40, 50, 25] =
     Inr (AVLNode 30
            (AVLNode 20 (AVLNode 10 Null Null 1) (AVLNode 25 Null Null 1) 2)
            (AVLNode 40 Null (AVLNode 50 Null Null 1) 2) 3)
   \<and> inorderTraversal (AVLNode 30
            (AVLNode 20 (AVLNode 10 Null Null 1) (AVLNode 25 Null Null 1) 2)
            (AVLNode 40 Null (AVLNode 50 Null Null 1) 2) 3) = [10, 20, 25, 30, 40, 50]
   \<and> kthSmallest (AVLNode 30
            (AVLNode 20 (AVLNode 10 Null Null 1) (AVLNode 25 Null Null 1) 2)
            (AVLNode 40 Null (AVLNode 50 Null Null 1) 2) 3) 3 = Some 25"
  by (simp add: AVLTree_insert_def rebalance_def kthSmallest_def Let_def)

text \<open>
  Claim C10. For every AVL tree (a search tree) holding \<open>n\<close> keys, \<^verbatim>\<open>kthSmallest(k)\<close>
  returns \<^verbatim>\<open>null\<close> (here \<open>None\<close>), with no error, whenever \<open>k < 1\<close> or \<open>k > n\<close>, and the
  \<open>k\<close>-th smallest stored key whenever \<open>1 \<le> k \<le> n\<close>. The walk only reads the tree: the
  model of \<^verbatim>\<open>_kthSmallestHelper\<close> takes the node and returns the result object alone, as
  the source writes to no field of a node.
\<close>

theorem kthSmallest_correct:
  assumes "bst t"
  shows "kthSmallest t k =
     (if 1 \<le> k \<and> k \<le> int (card (set_tree t))
      then Some (sorted_list_of_set (set_tree t) ! nat (k - 1)) else None)"
proof -
  have "inorderTraversal t = sorted_list_of_set (set_tree t)"
    by (rule bst_inorder_eq[OF assms])
  moreover have "length (sorted_list_of_set (set_tree t)) = card (set_tree t)"
    by simp
  ultimately show ?thesis using kthSmallest_inorder[of t k] by simp
qed

theorem kthSmallest_correct_witness:
  "bst (AVLNode 20 (AVLNode 10 Null Null 1) (AVLNode 30 Null Null 1) 2)
   \<and> kthSmallest (AVLNode 20 (AVLNode 10 Null Null 1) (AVLNode 30 Null Null 1) 2) 2 = Some 20
   \<and> kthSmallest (AVLNode 20 (AVLNode 10 Null Null 1) (AVLNode 30 Null Null 1) 2) 4 = None
   \<and> kthSmallest (AVLNode 20 (AVLNode 10 Null Null 1) (AVLNode 30 Null Null 1) 2) 0 = None"
proof -
  have b: "bst (AVLNode 20 (AVLNode 10 Null Null 1) (AVLNode 30 Null Null 1) 2)" by simp
  have s: "sorted_list_of_set (set_tree (AVLNode 20 (AVLNode 10 Null Null 1) (AVLNode 30 Null Null 1) 2))
      = [10, 20, 30]"
    using bst_inorder_eq[OF b] by simp
  show ?thesis
    using b kthSmallest_correct[OF b, of 2] kthSmallest_correct[OF b, of 4]
      kthSmallest_correct[OF b, of 0] s
    by simp
qed

text \<open>
  Claim C2 (the code departs from it). Minimum degree 2; the keys 1 to 6 fill the internal
  root with the keys 2, 3, 4 and four leaves. Inserting 0 splits that root: the median 3
  moves up into the new root (node 5), and stays as the first key of the new right node
  (node 6), which ends with two keys and two children.
\<close>

theorem internal_split_keeps_median:
  "BPlusTree_inserts (BPlusTree_new 2) (numbered [1, 2, 3, 4, 5, 6, 0]) = Some (Inr after_internal_split)
   \<and> keys (store after_internal_split ! 5) = [3]
   \<and> keys (store after_internal_split ! 6) = [3, 4]
   \<and> childPointers (store after_internal_split ! 6) = [Ref 3, Ref 4]"
  by (simp add: numbered_def after_internal_split_def BPlusTree_new_def BPlusTree_insert_def
      BPlusTree_insertNonFull.simps BPlusTree_splitChild_def insert_in_leaf_def node_at_def
      child_ref_def update_node_def splice_in_def scan_down_def newNode_def Let_def upt_rec)




text \<open>
  Claim C3, as stated, fails on the Treap: inserting 5 twice gives the in-order traversal
  5, 5, which is not strictly ascending, and the second 5 (here drawn with the higher
  priority and rotated to the root) has an equal key in its left subtree.
\<close>

theorem strict_order_counterexample:
  "Treap_inserts TNull [(5, 1 / 10), (5, 9 / 10)] =
     Inr (TreapNode 5 (9 / 10) (TreapNode 5 (1 / 10) TNull TNull) TNull)
   \<and> Treap_inorderTraversal (TreapNode 5 (9 / 10) (TreapNode 5 (1 / 10) TNull TNull) TNull) = [5, 5]
   \<and> \<not> sorted_wrt (<) (Treap_inorderTraversal (TreapNode 5 (9 / 10) (TreapNode 5 (1 / 10) TNull TNull) TNull))"
  by (simp add: Treap_insert_def)

text \<open>
  Claim C3, amended. For every finite sequence of insertions into the AVL tree, the
  in-order traversal is strictly ascending, and at every node the keys of the left
  subtree are less than the key of the node, which is less than the keys of the right
  subtree. For every finite sequence of insertions into the Treap, with any priorities,
  the in-order traversal is ascending and at every node the keys on the left are at most
  the key of the node, which is at most the keys on the right; it is strictly ascending
  when the inserted keys are pairwise different.
\<close>

theorem insert_keeps_order:
  "(\<exists>tr. AVLTree_inserts Null xs = Inr tr \<and> bst tr \<and> sorted_wrt (<) (inorderTraversal tr))
   \<and> (\<exists>u. Treap_inserts TNull kps = Inr u \<and> treap_ordered u
         \<and> sorted (Treap_inorderTraversal u)
         \<and> (distinct (map fst kps) \<longrightarrow> sorted_wrt (<) (Treap_inorderTraversal u)))"
proof
  from AVLTree_inserts_inv[of Null xs] obtain tr where
    "AVLTree_inserts Null xs = Inr tr" "bst tr" by auto
  then show "\<exists>tr. AVLTree_inserts Null xs = Inr tr \<and> bst tr \<and> sorted_wrt (<) (inorderTraversal tr)"
    using bst_sorted by blast
next
  from Treap_inserts_sorted[of kps]
  show "\<exists>u. Treap_inserts TNull kps = Inr u \<and> treap_ordered u
         \<and> sorted (Treap_inorderTraversal u)
         \<and> (distinct (map fst kps) \<longrightarrow> sorted_wrt (<) (Treap_inorderTraversal u))"
    by blast
qed

theorem insert_keeps_order_witness:
  "AVLTree_inserts Null [10, 20, 30] = Inr (AVLNode 20 (AVLNode 10 Null Null 1) (AVLNode 30 Null Null 1) 2)
   \<and> sorted_wrt (<) (inorderTraversal (AVLNode 20 (AVLNode 10 Null Null 1) (AVLNode 30 Null Null 1) 2))
   \<and> distinct (map fst [(5 :: int, 1 / 2 :: real), (2, 3 / 10), (6, 7 / 10)])
   \<and> (\<exists>u. Treap_inserts TNull [(5, 1 / 2), (2, 3 / 10), (6, 7 / 10)] = Inr u
         \<and> sorted_wrt (<) (Treap_inorderTraversal u))"
  using insert_keeps_order[of "[10, 20, 30]" "[(5, 1 / 2), (2, 3 / 10), (6, 7 / 10)]"]
  by (simp add: AVLTree_insert_def rebalance_def Treap_insert_def)

text \<open>
  Claim C4 (the code departs from it). Minimum degree 2, after inserting 10, 20, 30, 40,
  50, 35, 32: the keys 32 and 35 are both stored and lie between 31 and 36, yet
  \<^verbatim>\<open>rangeQuery(31, 36)\<close> returns the entry of 32 alone, and \<^verbatim>\<open>rangeQuery(30, 40)\<close> returns
  the keys in the order 30, 35, 32, 40. The split of the internal root left node 6 with
  the keys 30, 40 over the two leaves 3 and 4, so 32 went into the leaf after the one
  that holds 35.
\<close>

theorem rangeQuery_misses_key:
  "BPlusTree_inserts (BPlusTree_new 2) (numbered [10, 20, 30, 40, 50, 35, 32])
     = Some (Inr after_misplaced_key)
   \<and> BPlusTree_rangeQuery after_misplaced_key 31 36 = Some (Inr [(32, JSCell (Data 6))])
   \<and> BPlusTree_rangeQuery after_misplaced_key 30 40 =
       Some (Inr [(30, JSCell (Data 2)), (35, JSCell (Data 5)), (32, JSCell (Data 6)),
                  (40, JSCell (Data 3))])"
  by (simp add: numbered_def after_misplaced_key_def BPlusTree_new_def BPlusTree_insert_def
      BPlusTree_insertNonFull.simps BPlusTree_splitChild_def insert_in_leaf_def node_at_def
      child_ref_def update_node_def splice_in_def scan_down_def scan_up_def newNode_def Let_def
      upt_rec BPlusTree_rangeQuery_def BPlusTree_findLeafNode.simps range_loop.simps js_nth_def)

text \<open>
  Claim C5, as stated, fails for minimum degree 1: after inserting 1 and 2, the leaf at
  address 3, a child of the root, holds two keys, more than \<open>2t - 1 = 1\<close>. (A split
  leaves \<open>t\<close> keys in the new node, which is a full node when \<open>t = 1\<close>.)
\<close>

theorem degree_one_counterexample:
  "BPlusTree_inserts (BPlusTree_new 1) (numbered [1, 2]) = Some (Inr degree_one_run)
   \<and> at_depth degree_one_run 3 1
   \<and> keys (store degree_one_run ! 3) = [1, 2]
   \<and> \<not> key_count_ok degree_one_run"
proof -
  have run: "BPlusTree_inserts (BPlusTree_new 1) (numbered [1, 2]) = Some (Inr degree_one_run)"
    by (simp add: numbered_def degree_one_run_def BPlusTree_new_def BPlusTree_insert_def
      BPlusTree_insertNonFull.simps BPlusTree_splitChild_def insert_in_leaf_def node_at_def
      child_ref_def update_node_def splice_in_def scan_down_def newNode_def Let_def upt_rec)
  have "at_depth degree_one_run 1 0"
    by (rule at_root) (simp add: degree_one_run_def)
  then have d: "at_depth degree_one_run 3 (Suc 0)"
    by (rule at_child) (simp_all add: degree_one_run_def)
  have k: "keys (store degree_one_run ! 3) = [1, 2]" by (simp add: degree_one_run_def)
  have "\<not> key_count_ok degree_one_run"
  proof
    assume "key_count_ok degree_one_run"
    with d have "int (length (keys (store degree_one_run ! 3))) \<le> 2 * int (minimumDegree degree_one_run) - 1"
      unfolding key_count_ok_def by blast
    then show False by (simp add: degree_one_run_def)
  qed
  with run d k show ?thesis by simp
qed

text \<open>
  Claim C5, amended. For every finite sequence of insertions into the AVL tree, at every
  node the heights of the two subtrees differ by at most one and the stored height is the
  true height of the subtree. For the B+tree with a minimum degree \<open>t\<close> of at least 2,
  every finite sequence of \<^verbatim>\<open>insert\<close> calls ends, and in the tree it leaves every node
  below the root holds between \<open>t - 1\<close> and \<open>2t - 1\<close> keys and all leaves are at the same
  depth. This holds whether the calls return or throw: for the tree that is there when
  the first exception ends the sequence, and for the tree after all the calls when the
  caller catches the exceptions and goes on.
\<close>

theorem insert_keeps_balance:
  "(\<exists>tr. AVLTree_inserts Null xs = Inr tr \<and> balanced tr)
   \<and> (2 \<le> t \<longrightarrow>
        (\<exists>res. BPlusTree_inserts (BPlusTree_new t) kvs = Some res
           \<and> (\<forall>T. res \<noteq> Inl (Unmodelled, T))
           \<and> minimumDegree (tree_of res) = t
           \<and> key_count_ok (tree_of res) \<and> leaves_level (tree_of res))
        \<and> (\<exists>T. BPlusTree_calls (BPlusTree_new t) kvs = Some T
           \<and> minimumDegree T = t \<and> key_count_ok T \<and> leaves_level T))"
proof (intro conjI impI)
  from AVLTree_inserts_inv[of Null xs] obtain tr where
    "AVLTree_inserts Null xs = Inr tr" "avl tr" by auto
  then show "\<exists>tr. AVLTree_inserts Null xs = Inr tr \<and> balanced tr"
    using avl_balanced by blast
next
  assume "2 \<le> t"
  then have t2: "2 \<le> minimumDegree (BPlusTree_new t :: 'a BPlusTree)"
    by (simp add: BPlusTree_new_def)
  from inserts_inv[OF new_inv t2, of kvs]
  show "\<exists>res. BPlusTree_inserts (BPlusTree_new t) kvs = Some res
           \<and> (\<forall>T. res \<noteq> Inl (Unmodelled, T))
           \<and> minimumDegree (tree_of res) = t
           \<and> key_count_ok (tree_of res) \<and> leaves_level (tree_of res)"
    using inv_key_count_ok inv_leaves_level by (fastforce simp: BPlusTree_new_def)
  from calls_inv[OF new_inv t2, of kvs]
  show "\<exists>T. BPlusTree_calls (BPlusTree_new t) kvs = Some T
           \<and> minimumDegree T = t \<and> key_count_ok T \<and> leaves_level T"
    using inv_key_count_ok inv_leaves_level by (fastforce simp: BPlusTree_new_def)
qed

theorem insert_keeps_balance_witness:
  "AVLTree_inserts Null [10, 20, 30] = Inr (AVLNode 20 (AVLNode 10 Null Null 1) (AVLNode 30 Null Null 1) 2)
   \<and> balanced (AVLNode 20 (AVLNode 10 Null Null 1) (AVLNode 30 Null Null 1) 2)
   \<and> (2 :: nat) \<le> 2
   \<and> BPlusTree_inserts (BPlusTree_new 2) (numbered [1, 2, 3, 4, 5, 6, 7])
       = Some (Inl (TypeError, seventh_key_throws))
   \<and> key_count_ok seventh_key_throws \<and> leaves_level seventh_key_throws
   \<and> BPlusTree_calls (BPlusTree_new 2) (numbered [1, 2, 3, 4, 5, 6, 7]) = Some seventh_key_throws"
proof -
  have run: "BPlusTree_inserts (BPlusTree_new 2) (numbered [1, 2, 3, 4, 5, 6, 7])
       = Some (Inl (TypeError, seventh_key_throws))"
    by (simp add: numbered_def seventh_key_throws_def BPlusTree_new_def BPlusTree_insert_def
      BPlusTree_insertNonFull.simps BPlusTree_splitChild_def insert_in_leaf_def node_at_def
      child_ref_def update_node_def splice_in_def scan_down_def newNode_def Let_def upt_rec)
  have calls: "BPlusTree_calls (BPlusTree_new 2) (numbered [1, 2, 3, 4, 5, 6, 7])
       = Some seventh_key_throws"
    by (simp add: numbered_def seventh_key_throws_def BPlusTree_new_def BPlusTree_insert_def
      BPlusTree_insertNonFull.simps BPlusTree_splitChild_def insert_in_leaf_def node_at_def
      child_ref_def update_node_def splice_in_def scan_down_def newNode_def Let_def upt_rec
      tree_of_def)
  show ?thesis
    using insert_keeps_balance[of "[10, 20, 30]" 2 "numbered [1, 2, 3, 4, 5, 6, 7]"] run calls
    by (simp add: AVLTree_insert_def rebalance_def tree_of_def)
qed

text \<open>
  Claim C6 (the code departs from it). \<^verbatim>\<open>rangeQuery\<close> on the empty tree throws for any
  bounds, 5 and 1 among them: it passes the \<^verbatim>\<open>null\<close> root to \<^verbatim>\<open>_findLeafNode\<close>, which
  reads \<^verbatim>\<open>null.isLeaf\<close>; \<^verbatim>\<open>search\<close> has the guard that \<^verbatim>\<open>rangeQuery\<close> lacks. On the
  non-empty tree reached by inserting 10, 20, 30, 40, 50, 35, 32 with minimum degree 2,
  \<^verbatim>\<open>rangeQuery(60, 55)\<close> throws as well: the descent reads a third child of node 6, which
  has two. (Where \<^verbatim>\<open>rangeQuery\<close> returns with \<open>low > high\<close>, it returns the empty
  sequence: lemma \<open>rangeQuery_empty_range\<close>.)
\<close>

theorem rangeQuery_throws:
  "BPlusTree_rangeQuery (BPlusTree_new 3 :: nat BPlusTree) 5 1 = Some (Inl TypeError)
   \<and> BPlusTree_search (BPlusTree_new 3 :: nat BPlusTree) 5 = Some (Inr JSNull)
   \<and> BPlusTree_rangeQuery after_misplaced_key 60 55 = Some (Inl TypeError)"
  by (simp add: after_misplaced_key_def BPlusTree_new_def node_at_def
      child_ref_def scan_up_def BPlusTree_search_def
      BPlusTree_rangeQuery_def BPlusTree_findLeafNode.simps)

text \<open>
  Claim C7 (the code departs from it). Minimum degree 2, after inserting 10, 20, 30, 40,
  50, 35, 32: the leaf at address 3 holds 30, 35 and its \<^verbatim>\<open>nextLeaf\<close> is the leaf at
  address 4, which holds 32, 40, 50. Along the chain 35 comes before 32.
\<close>

theorem leaf_chain_out_of_order:
  "BPlusTree_inserts (BPlusTree_new 2) (numbered [10, 20, 30, 40, 50, 35, 32])
     = Some (Inr after_misplaced_key)
   \<and> isLeaf (store after_misplaced_key ! 3)
   \<and> keys (store after_misplaced_key ! 3) = [30, 35]
   \<and> nextLeaf (store after_misplaced_key ! 3) = Some 4
   \<and> isLeaf (store after_misplaced_key ! 4)
   \<and> keys (store after_misplaced_key ! 4) = [32, 40, 50]
   \<and> \<not> sorted (keys (store after_misplaced_key ! 3) @ keys (store after_misplaced_key ! 4))"
  by (simp add: numbered_def after_misplaced_key_def BPlusTree_new_def BPlusTree_insert_def
      BPlusTree_insertNonFull.simps BPlusTree_splitChild_def insert_in_leaf_def node_at_def
      child_ref_def update_node_def splice_in_def scan_down_def newNode_def Let_def upt_rec)

text \<open>
  Claim C8 (the code departs from it). Minimum degree 2: the keys 1 to 6 are inserted,
  7 is not among them, and inserting 7 throws. The root is split first, which leaves the
  new right node with the keys 3, 4 and two children; the descent for 7 then reads its
  third child. The tree the call leaves holds 7 nowhere. Also, in the run of the test at the end of the
  source file (minimum degree 3), the key 5 is in the leaf at address 2 and
  \<^verbatim>\<open>search(5)\<close> returns \<^verbatim>\<open>null\<close>. (The Treap half of the claim holds: lemma
  \<open>Treap_delete_then_search\<close>.)
\<close>

theorem insert_throws:
  "BPlusTree_inserts (BPlusTree_new 2) (numbered [1, 2, 3, 4, 5, 6]) = Some (Inr six_keys_run)
   \<and> BPlusTree_search six_keys_run 7 = Some (Inr JSNull)
   \<and> BPlusTree_insert six_keys_run 7 6 = Some (Inl (TypeError, seventh_key_throws))
   \<and> BPlusTree_inserts (BPlusTree_new 3) (numbered [3, 7, 1, 5, 11, 17, 13, 2, 19, 23])
       = Some (Inr source_test_run)
   \<and> keys (store source_test_run ! 2) = [5, 7]
   \<and> BPlusTree_search source_test_run 5 = Some (Inr JSNull)"
  by (simp add: numbered_def six_keys_run_def seventh_key_throws_def source_test_run_def BPlusTree_new_def
      BPlusTree_insert_def BPlusTree_insertNonFull.simps BPlusTree_splitChild_def
      insert_in_leaf_def node_at_def child_ref_def update_node_def splice_in_def scan_down_def
      scan_up_def newNode_def Let_def upt_rec BPlusTree_search_def
      BPlusTree_recursiveSearch.simps js_nth_def)


end
